theory Spec2Isabelle
  imports Complex_Main "HOL-Library.AList" "HOL-Library.Sublist"
begin

section \<open>Python values shared by the model\<close>

text \<open>
  The exceptions the modelled functions can raise.  \<open>Abend\<close> is the \<open>SystemExit\<close> raised by
  \<open>abend\<close> (which writes its message to stderr and calls \<open>sys.exit(1)\<close>); it carries the
  message.  \<open>PyException\<close> is the plain \<open>Exception\<close> raised by \<open>new_symbol\<close>.
\<close>

datatype exn =
    RemainingNextException
  | NonChimera
  | KeyError
  | IndexError
  | ValueError
  | ZeroDivisionError
  | UnboundLocalError
  | PyException string
  | Abend string

text \<open>
  A Python \<open>dict\<close> is an association list with distinct keys: \<open>map_of\<close> reads a key,
  \<open>AList.update\<close> stores a value (in place when the key is present, at the end otherwise),
  \<open>AList.delete\<close> removes a key.  The list order is the insertion order.  A Python \<open>set\<close>
  is a list without duplicates; \<open>py_set_add\<close> is \<open>set.add\<close> and \<open>py_set_update\<close> is
  \<open>set.update\<close>.
\<close>

definition py_set_add :: "'a \<Rightarrow> 'a list \<Rightarrow> 'a list" where
  "py_set_add x xs = (if x \<in> set xs then xs else xs @ [x])"

definition py_set_update :: "'a list \<Rightarrow> 'a list \<Rightarrow> 'a list" where
  "py_set_update xs other = fold py_set_add other xs"

definition py_floordiv :: "int \<Rightarrow> int \<Rightarrow> exn + int" where
  "py_floordiv a b = (if b = 0 then Inl ZeroDivisionError else Inr (a div b))"

fun py_max :: "int list \<Rightarrow> exn + int" where
  "py_max [] = Inl ValueError"
| "py_max (x # xs) = Inr (fold max xs x)"

subsection \<open>Strings: \<open>in\<close> and \<open>str.replace\<close>\<close>

fun str_contains :: "string \<Rightarrow> string \<Rightarrow> bool" where
  "str_contains sub [] = (sub = [])"
| "str_contains sub (c # cs) = (prefix sub (c # cs) \<or> str_contains sub cs)"

text \<open>
  \<open>s.replace(old, new)\<close> replaces the non-overlapping occurrences of \<open>old\<close> from left to
  right; with an empty \<open>old\<close> Python puts \<open>new\<close> before every character and at the end.
\<close>

function str_replace :: "string \<Rightarrow> string \<Rightarrow> string \<Rightarrow> string" where
  "str_replace s old new =
     (if old = [] then new @ concat (map (\<lambda>c. c # new) s)
      else if s = [] then []
      else if prefix old s then new @ str_replace (drop (length old) s) old new
      else hd s # str_replace (tl s) old new)"
  by pat_completeness auto
termination
  by (relation "measure (\<lambda>(s, old, new). length s)") auto

declare str_replace.simps [simp del]

section \<open>Deferred prefixes (utils.py, \<open>apply_prefix\<close>)\<close>

definition apply_prefix :: "string \<Rightarrow> string option \<Rightarrow> string option \<Rightarrow> exn + string" where
  "apply_prefix symb0 prefix_opt next_prefix =
     (let symb = (case prefix_opt of Some p \<Rightarrow> p @ symb0 | None \<Rightarrow> symb0)
      in if str_contains ''!next.'' symb
         then (case prefix_opt of
                 None \<Rightarrow> Inl RemainingNextException
               | Some p \<Rightarrow>
                   (case next_prefix of
                      None \<Rightarrow> Inl RemainingNextException
                    | Some np \<Rightarrow> Inr (str_replace symb (p @ ''!next.'') np)))
         else Inr symb)"

section \<open>The symbol table (utils.py, class \<open>SymbolMapping\<close>)\<close>

text \<open>
  The method \<open>alias\<close> is \<open>SymbolMapping_alias\<close> here, \<open>alias\<close> being a keyword of Isabelle;
  a variable \<open>sym\<close> of the source is \<open>symb\<close>, \<open>sym\<close> being a constant of HOL.
\<close>

record SymbolMapping =
  sym2num :: "(string \<times> int) list"
  num2syms :: "(int \<times> string list) list"
  next_sym_num :: int

definition init_SymbolMapping :: SymbolMapping where
  "init_SymbolMapping = \<lparr>sym2num = [], num2syms = [], next_sym_num = 0\<rparr>"

definition new_symbol :: "SymbolMapping \<Rightarrow> string \<Rightarrow> (exn + int) \<times> SymbolMapping" where
  "new_symbol self symb =
     (if symb \<in> fst ` set (sym2num self)
      then (Inl (PyException (''Internal error: Symbol '' @ symb @ '' is already defined'')), self)
      else (Inr (next_sym_num self),
            self\<lparr>sym2num := AList.update symb (next_sym_num self) (sym2num self),
                 num2syms := AList.update (next_sym_num self) [symb] (num2syms self),
                 next_sym_num := next_sym_num self + 1\<rparr>))"

definition to_number :: "SymbolMapping \<Rightarrow> string \<Rightarrow> exn + int" where
  "to_number self symb = (case map_of (sym2num self) symb of None \<Rightarrow> Inl KeyError | Some n \<Rightarrow> Inr n)"

definition to_symbols :: "SymbolMapping \<Rightarrow> int \<Rightarrow> exn + string list" where
  "to_symbols self num = (case map_of (num2syms self) num of None \<Rightarrow> Inl KeyError | Some ss \<Rightarrow> Inr ss)"

text \<open>
  The \<open>try: num = self.sym2num[symb] except KeyError: num = self.new_symbol(symb); n_new_defs += 1\<close>
  block of \<open>alias\<close>: the number, the increment of \<open>n_new_defs\<close> and the table afterwards.
\<close>

definition alias_ensure :: "SymbolMapping \<Rightarrow> string \<Rightarrow> (exn + int \<times> nat) \<times> SymbolMapping" where
  "alias_ensure self symb =
     (case map_of (sym2num self) symb of
        Some n \<Rightarrow> (Inr (n, 0), self)
      | None \<Rightarrow>
          (case new_symbol self symb of
             (Inl e, self') \<Rightarrow> (Inl e, self')
           | (Inr n, self') \<Rightarrow> (Inr (n, 1), self')))"

text \<open>
  \<open>self.sym2num = {}; for n, ss in self.num2syms.items(): for s in ss: self.sym2num[s] = n\<close>
\<close>

definition regenerate_sym2num :: "(int \<times> string list) list \<Rightarrow> (string \<times> int) list" where
  "regenerate_sym2num n2s =
     fold (\<lambda>(n, ss) m. fold (\<lambda>s m'. AList.update s n m') ss m) n2s []"

definition SymbolMapping_alias :: "SymbolMapping \<Rightarrow> string \<Rightarrow> string \<Rightarrow> (exn + int) \<times> SymbolMapping" where
  "SymbolMapping_alias self sym1 sym2 =
     (case alias_ensure self sym1 of
        (Inl e, self1) \<Rightarrow> (Inl e, self1)
      | (Inr (num1, d1), self1) \<Rightarrow>
          (case alias_ensure self1 sym2 of
             (Inl e, self2) \<Rightarrow> (Inl e, self2)
           | (Inr (num2, d2), self2) \<Rightarrow>
               (let n_new_defs = d1 + d2 in
                if num1 = num2 then (Inr num1, self2)
                else if n_new_defs = 0
                then (Inl (Abend (''Unable to alias pre-existing variables '' @ sym1 @ '' and '' @ sym2)),
                      self2)
                else
                  (let new_num = min num1 num2; old_num = max num1 num2 in
                   case map_of (num2syms self2) new_num of
                     None \<Rightarrow> (Inl KeyError, self2)
                   | Some new_ss \<Rightarrow>
                       (case map_of (num2syms self2) old_num of
                          None \<Rightarrow> (Inl KeyError, self2)
                        | Some old_ss \<Rightarrow>
                            (let n2s = AList.delete old_num
                                         (AList.update new_num (py_set_update new_ss old_ss)
                                            (num2syms self2))
                             in (Inr new_num,
                                 self2\<lparr>sym2num := regenerate_sym2num n2s,
                                       num2syms := n2s\<rparr>)))))))"

definition overwrite_with :: "SymbolMapping \<Rightarrow> (string \<times> int) list \<Rightarrow> SymbolMapping" where
  "overwrite_with self s2n =
     (let n2s = fold (\<lambda>(s, n) acc.
                        case map_of acc n of
                          Some ss \<Rightarrow> AList.update n (py_set_add s ss) acc
                        | None \<Rightarrow> AList.update n [s] acc) s2n []
      in self\<lparr>sym2num := s2n,
              num2syms := n2s,
              next_sym_num := (case py_max (map fst n2s) of Inl e \<Rightarrow> 0 | Inr m \<Rightarrow> m + 1)\<rparr>)"

text \<open>
  The first loop of \<open>replace_all\<close>: reads and deletes each symbol of \<open>before_syms\<close> from the
  copied map, collecting the numbers; a missing symbol ends in \<open>abend\<close>.
\<close>

fun replace_all_collect ::
  "(string \<times> int) list \<Rightarrow> int list \<Rightarrow> string list \<Rightarrow> exn + (string \<times> int) list \<times> int list" where
  "replace_all_collect s2n before_nums [] = Inr (s2n, before_nums)"
| "replace_all_collect s2n before_nums (s # ss) =
     (case map_of s2n s of
        None \<Rightarrow> Inl (Abend (''Failed to rename nonexistent symbol '' @ [CHR 0x22] @ s @ [CHR 0x22]))
      | Some n \<Rightarrow> replace_all_collect (AList.delete s s2n) (before_nums @ [n]) ss)"

definition replace_all ::
  "SymbolMapping \<Rightarrow> string list \<Rightarrow> string list \<Rightarrow> (exn + unit) \<times> SymbolMapping" where
  "replace_all self before_syms after_syms =
     (case replace_all_collect (sym2num self) [] before_syms of
        Inl e \<Rightarrow> (Inl e, self)
      | Inr (s2n, before_nums) \<Rightarrow>
          (Inr (),
           overwrite_with self
             (fold (\<lambda>(s, n) m. AList.update s n m) (zip after_syms before_nums) s2n)))"

text \<open>
  \<open>symbol_to_number\<close> works on the global table \<open>qmasm.sym_map\<close>, passed here explicitly.
\<close>

definition resolve_or_define :: "SymbolMapping \<Rightarrow> string \<Rightarrow> (exn + int) \<times> SymbolMapping" where
  "resolve_or_define self symb =
     (case to_number self symb of
        Inr n \<Rightarrow> (Inr n, self)
      | Inl e \<Rightarrow> (if e = KeyError then new_symbol self symb else (Inl e, self)))"

definition symbol_to_number ::
  "SymbolMapping \<Rightarrow> string \<Rightarrow> string option \<Rightarrow> string option \<Rightarrow> (exn + int) \<times> SymbolMapping" where
  "symbol_to_number sym_map symb prefix_opt next_prefix =
     (if str_contains ''!next.'' symb
      then (case prefix_opt of
              None \<Rightarrow> (Inl RemainingNextException, sym_map)
            | Some p \<Rightarrow>
                (case next_prefix of
                   None \<Rightarrow> (Inl RemainingNextException, sym_map)
                 | Some np \<Rightarrow> resolve_or_define sym_map (str_replace symb (p @ ''!next.'') np)))
      else resolve_or_define sym_map symb)"

text \<open>The message of the \<open>abend\<close> in \<open>replace_all\<close>, for the statements.\<close>

definition rename_message :: "string \<Rightarrow> string" where
  "rename_message u = ''Failed to rename nonexistent symbol '' @ [CHR 0x22] @ u @ [CHR 0x22]"

text \<open>
  For the statements: a call of \<open>define\<close> (\<open>new_symbol\<close>) or of \<open>alias\<close>; a sequence of calls,
  which ends at the first call that raises; the pairs of symbols that the \<open>alias\<close> calls of a
  sequence name; and the invariant of the table: the reverse map is a dictionary, a symbol
  has the number \<open>n\<close> exactly when it is in the set of \<open>n\<close>, and every number in use is below
  the next number.
\<close>

datatype sym_op = Define string | Alias string string

fun apply_sym_op :: "SymbolMapping \<Rightarrow> sym_op \<Rightarrow> (exn + int) \<times> SymbolMapping" where
  "apply_sym_op self (Define s) = new_symbol self s"
| "apply_sym_op self (Alias a b) = SymbolMapping_alias self a b"

fun run_ops :: "SymbolMapping \<Rightarrow> sym_op list \<Rightarrow> exn + SymbolMapping" where
  "run_ops self [] = Inr self"
| "run_ops self (x # xs) =
     (case apply_sym_op self x of
        (Inl e, self') \<Rightarrow> Inl e
      | (Inr n, self') \<Rightarrow> run_ops self' xs)"

definition aliased_pairs :: "sym_op list \<Rightarrow> (string \<times> string) set" where
  "aliased_pairs ops = {(a, b). Alias a b \<in> set ops}"

definition table_inv :: "SymbolMapping \<Rightarrow> bool" where
  "table_inv t =
     (distinct (map fst (num2syms t))
      \<and> (\<forall>s n. map_of (sym2num t) s = Some n
                \<longleftrightarrow> (\<exists>ss. map_of (num2syms t) n = Some ss \<and> s \<in> set ss))
      \<and> (\<forall>n \<in> fst ` set (num2syms t). n < next_sym_num t))"

section \<open>Edge canonicalisation (utils.py, \<open>canonicalize_strengths\<close>)\<close>

text \<open>
  The weights are Python floats, and HOL has no IEEE doubles: the weight type is a type
  variable \<open>'w\<close>, and the three operations the function applies to weights are passed to
  it: \<open>fadd\<close> is \<open>+\<close> on two weights, \<open>fzero\<close> is the literal \<open>0.0\<close>, \<open>feq\<close> is \<open>==\<close>.
  Nothing is assumed about them, so whatever is proved holds of the doubles, with their
  rounding, their infinities and their NaN.
\<close>

record 'w float_ops =
  fadd :: "'w \<Rightarrow> 'w \<Rightarrow> 'w"
  fzero :: 'w
  feq :: "'w \<Rightarrow> 'w \<Rightarrow> bool"

text \<open>
  The operations on the reals, to evaluate the function on given weights.  On doubles that
  are small integers, and whose sums are, \<open>+\<close> and \<open>==\<close> are the exact ones, so there the two
  arithmetics agree; it is used on such weights only.
\<close>

definition exact_ops :: "real float_ops" where
  "exact_ops = \<lparr>fadd = (+), fzero = 0, feq = (=)\<rparr>"

type_synonym 'w strengths = "((int \<times> int) \<times> 'w) list"

text \<open>Reading a \<open>defaultdict(lambda: 0.0)\<close>: a missing key reads as \<open>0.0\<close>.\<close>

definition defaultdict_get :: "'w float_ops \<Rightarrow> ('k \<times> 'w) list \<Rightarrow> 'k \<Rightarrow> 'w" where
  "defaultdict_get ops d k = (case map_of d k of None \<Rightarrow> fzero ops | Some v \<Rightarrow> v)"

text \<open>
  The body of the loop over \<open>strs.items()\<close>; \<open>new_strs[(q1, q2)] += wt\<close> stores
  \<open>new_strs[(q1, q2)] + wt\<close>.
\<close>

definition canonicalize_entry ::
  "'w float_ops \<Rightarrow> (int \<times> int) \<times> 'w \<Rightarrow> 'w strengths \<Rightarrow> 'w strengths" where
  "canonicalize_entry ops item new_strs =
     (case item of ((q1, q2), wt) \<Rightarrow>
        if q1 = q2 then new_strs
        else if feq ops wt (fzero ops) then new_strs
        else let k = (if q1 > q2 then (q2, q1) else (q1, q2))
             in AList.update k (fadd ops (defaultdict_get ops new_strs k) wt) new_strs)"

definition canonicalize_strengths :: "'w float_ops \<Rightarrow> 'w strengths \<Rightarrow> 'w strengths" where
  "canonicalize_strengths ops strs = fold (canonicalize_entry ops) strs []"

text \<open>
  For the statements.  \<open>dict_eq\<close> is \<open>==\<close> on two dictionaries: as many keys, and every key of
  the first is a key of the second with a value that is \<open>==\<close>.  \<open>edge_weights\<close> lists, in the
  order of the input, the weights that the entries of \<open>strs\<close> contribute to the undirected
  edge \<open>e\<close> (entries in either orientation; a self-loop or a weight \<open>== 0.0\<close> contributes
  nothing).  \<open>canonical_keys\<close> says that every key is a pair \<open>(a, b)\<close> with \<open>a < b\<close>.
  \<open>rezeroed\<close> drops the entries whose weight is \<open>== 0.0\<close> and replaces every other weight \<open>w\<close>
  by \<open>0.0 + w\<close>.
\<close>

definition dict_eq :: "'w float_ops \<Rightarrow> ('k \<times> 'w) list \<Rightarrow> ('k \<times> 'w) list \<Rightarrow> bool" where
  "dict_eq ops d1 d2 =
     (length d1 = length d2
      \<and> list_all (\<lambda>(k, v). case map_of d2 k of None \<Rightarrow> False | Some v' \<Rightarrow> feq ops v v') d1)"

definition edge_weights :: "'w float_ops \<Rightarrow> 'w strengths \<Rightarrow> int \<times> int \<Rightarrow> 'w list" where
  "edge_weights ops strs e =
     map snd (filter (\<lambda>((q1, q2), wt).
                q1 \<noteq> q2 \<and> \<not> feq ops wt (fzero ops) \<and> (min q1 q2, max q1 q2) = e) strs)"

definition canonical_keys :: "'w strengths \<Rightarrow> bool" where
  "canonical_keys d = (\<forall>((a, b), w) \<in> set d. a < b)"

definition rezeroed :: "'w float_ops \<Rightarrow> 'w strengths \<Rightarrow> 'w strengths" where
  "rezeroed ops d =
     map (\<lambda>(k, w). (k, fadd ops (fzero ops) w)) (filter (\<lambda>(k, w). \<not> feq ops w (fzero ops)) d)"

section \<open>Topology inference (utils.py, \<open>chimera_topology\<close>)\<close>

text \<open>
  \<open>solver.properties\<close> with the two keys the function reads; a key can be missing.
\<close>

record solver_properties =
  num_qubits :: "int option"
  couplers :: "(int \<times> int) list option"

text \<open>
  The loop \<open>for d in deltas: delta_tallies[d] += 1; sorted_tallies = sorted(...)\<close>.  The
  assignment to \<open>sorted_tallies\<close> is inside the loop body, so the variable is unbound
  (\<open>None\<close> here) when the loop body never runs.  \<open>sorted(..., key, reverse=True)\<close> is a
  stable sort by descending key, here \<open>sort_key\<close> on the negated tally.
\<close>

fun tally_loop ::
  "(int \<times> int) list \<Rightarrow> (int \<times> int) list option \<Rightarrow> int list
     \<Rightarrow> exn + (int \<times> int) list \<times> (int \<times> int) list option" where
  "tally_loop delta_tallies sorted_tallies [] = Inr (delta_tallies, sorted_tallies)"
| "tally_loop delta_tallies sorted_tallies (d # ds) =
     (case map_of delta_tallies d of
        None \<Rightarrow> Inl KeyError
      | Some t \<Rightarrow>
          (let delta_tallies' = AList.update d (t + 1) delta_tallies
           in tally_loop delta_tallies' (Some (sort_key (\<lambda>dt. - snd dt) delta_tallies')) ds))"

text \<open>The loop over \<open>sorted_tallies[1:]\<close> that sets \<open>M\<close> (initially 1).\<close>

fun find_stride :: "int \<Rightarrow> (int \<times> int) list \<Rightarrow> exn + int" where
  "find_stride L [] = Inr 1"
| "find_stride L ((d, t) # rest) =
     (if d > 2 * L then py_floordiv d (2 * L) else find_stride L rest)"

definition chimera_topology :: "solver_properties \<Rightarrow> exn + int \<times> int \<times> int" where
  "chimera_topology props =
     (case num_qubits props of
        None \<Rightarrow> Inl NonChimera
      | Some nominal_qubits \<Rightarrow>
          (case couplers props of
             None \<Rightarrow> Inl KeyError
           | Some cs \<Rightarrow>
               (let deltas = map (\<lambda>(c1, c2). \<bar>c1 - c2\<bar>) cs;
                    delta_tallies = fold (\<lambda>d m. AList.update d 0 m) deltas []
                in case tally_loop delta_tallies None deltas of
                     Inl e \<Rightarrow> Inl e
                   | Inr (tallies, None) \<Rightarrow> Inl UnboundLocalError
                   | Inr (tallies, Some []) \<Rightarrow> Inl IndexError
                   | Inr (tallies, Some ((L, t) # rest)) \<Rightarrow>
                       (case find_stride L rest of
                          Inl e \<Rightarrow> Inl e
                        | Inr M \<Rightarrow>
                            (case py_floordiv (nominal_qubits + 2 * L * M - 1) (2 * L * M) of
                               Inl e \<Rightarrow> Inl e
                             | Inr N \<Rightarrow> Inr (L, M, N))))))"

text \<open>
  For the statements: the absolute index-distances of the couplers; the distinct values of a
  list in the order of their first occurrence (the order of the keys of \<open>delta_tallies\<close>);
  the distinct distances with their frequencies, ordered by descending frequency, distances of
  equal frequency in the order of their first occurrence; and the number of columns read off
  the first distance greater than \<open>2 * L\<close> among the distances \<open>rest\<close> after the most
  frequent one, 1 when there is none.
\<close>

definition coupler_distances :: "(int \<times> int) list \<Rightarrow> int list" where
  "coupler_distances cs = map (\<lambda>(c1, c2). \<bar>c1 - c2\<bar>) cs"

fun first_occurrences :: "int list \<Rightarrow> int list" where
  "first_occurrences [] = []"
| "first_occurrences (x # xs) = x # filter (\<lambda>y. y \<noteq> x) (first_occurrences xs)"

definition ranked_distances :: "(int \<times> int) list \<Rightarrow> (int \<times> int) list" where
  "ranked_distances cs =
     sort_key (\<lambda>dt. - snd dt)
       (map (\<lambda>d. (d, int (count_list (coupler_distances cs) d)))
          (first_occurrences (coupler_distances cs)))"

definition stride_columns :: "int \<Rightarrow> (int \<times> int) list \<Rightarrow> int" where
  "stride_columns L rest =
     (case find (\<lambda>d. d > 2 * L) (map fst rest) of None \<Rightarrow> 1 | Some d \<Rightarrow> d div (2 * L))"

section \<open>Embeddability (utils.py, \<open>edges_to_neighbor_list\<close>, \<open>maybe_embeddable\<close>)\<close>

text \<open>
  \<open>add_neighbor n1 n2\<close> is the block
  \<open>try: nodes[n1].add(n2) except KeyError: nodes[n1] = set([n2])\<close>.
\<close>

definition add_neighbor :: "int \<Rightarrow> int \<Rightarrow> (int \<times> int list) list \<Rightarrow> (int \<times> int list) list" where
  "add_neighbor n1 n2 nodes =
     (case map_of nodes n1 of
        Some peers \<Rightarrow> AList.update n1 (py_set_add n2 peers) nodes
      | None \<Rightarrow> AList.update n1 [n2] nodes)"

definition edges_to_neighbor_list :: "(int \<times> int) list \<Rightarrow> (int \<times> int list) list" where
  "edges_to_neighbor_list pairs =
     fold (\<lambda>(n1, n2) nodes. add_neighbor n2 n1 (add_neighbor n1 n2 nodes)) pairs []"

text \<open>
  The loop that accumulates \<open>extras\<close>.  \<open>math.ceil(float(deg)/float(max_degree_avail))\<close> is the
  ceiling of the exact quotient (the floating-point quotient of two node degrees has the same
  ceiling).
\<close>

definition count_extras :: "int \<Rightarrow> (int \<times> int list) list \<Rightarrow> int" where
  "count_extras max_degree_avail graph_needed =
     fold (\<lambda>(n, peers) extras.
             let deg = int (length peers)
             in if deg > max_degree_avail
                then extras + (\<lceil>real_of_int deg / real_of_int max_degree_avail\<rceil> - 1)
                else extras) graph_needed 0"

text \<open>The histogram of node degrees, before sorting.\<close>

definition degree_hist :: "(int \<times> int list) list \<Rightarrow> (int \<times> int) list" where
  "degree_hist graph_needed =
     fold (\<lambda>(n, peers) hist.
             let deg = int (length peers)
             in case map_of hist deg of
                  Some c \<Rightarrow> AList.update deg (c + 1) hist
                | None \<Rightarrow> AList.update deg 1 hist) graph_needed []"

text \<open>
  \<open>max\<close> of an empty list raises \<open>ValueError\<close>.  The histogram has one entry per degree, so
  \<open>sorted(hist.items())\<close> sorts by degree.
\<close>

definition maybe_embeddable ::
  "(int \<times> int) list \<Rightarrow> (int \<times> int) list
     \<Rightarrow> exn + bool \<times> int \<times> (int \<times> int) \<times> (int \<times> int) \<times> (int \<times> int) list" where
  "maybe_embeddable edges adj =
     (let graph_needed = edges_to_neighbor_list edges;
          num_edges_needed = int (length edges);
          num_nodes_needed = int (length graph_needed);
          graph_avail = edges_to_neighbor_list adj;
          num_edges_avail = int (length adj);
          num_nodes_avail = int (length graph_avail)
      in case py_max (map (\<lambda>(n, peers). int (length peers)) graph_avail) of
           Inl e \<Rightarrow> Inl e
         | Inr max_degree_avail \<Rightarrow>
             (let extras = count_extras max_degree_avail graph_needed;
                  embed0 = True;
                  embed1 = (if num_nodes_needed + extras > num_nodes_avail then False else embed0);
                  embed2 = (if num_edges_needed + extras > num_edges_avail then False else embed1)
              in Inr (embed2, extras, (num_nodes_needed, num_nodes_avail),
                      (num_edges_needed, num_edges_avail),
                      sort_key fst (degree_hist graph_needed))))"

text \<open>
  For the statements: the nodes of an edge list, the neighbours and the degree of a node (a
  self-loop makes a node its own neighbour, as in \<open>edges_to_neighbor_list\<close>), the maximum
  degree, and the extra nodes that the logical nodes of too high a degree need.
\<close>

definition graph_nodes :: "(int \<times> int) list \<Rightarrow> int set" where
  "graph_nodes es = fst ` set es \<union> snd ` set es"

definition graph_neighbors :: "(int \<times> int) list \<Rightarrow> int \<Rightarrow> int set" where
  "graph_neighbors es v = {u. (v, u) \<in> set es \<or> (u, v) \<in> set es}"

definition graph_degree :: "(int \<times> int) list \<Rightarrow> int \<Rightarrow> int" where
  "graph_degree es v = int (card (graph_neighbors es v))"

definition max_degree :: "(int \<times> int) list \<Rightarrow> int" where
  "max_degree es = Max (graph_degree es ` graph_nodes es)"

definition extras_needed :: "(int \<times> int) list \<Rightarrow> (int \<times> int) list \<Rightarrow> int" where
  "extras_needed edges adj =
     (\<Sum>v \<in> graph_nodes edges.
        if graph_degree edges v > max_degree adj
        then \<lceil>real_of_int (graph_degree edges v) / real_of_int (max_degree adj)\<rceil> - 1
        else 0)"

text \<open>
  The members of the set stored under a key of a dictionary of sets (none when the key is
  absent).
\<close>

definition peers_of :: "('k \<times> 'a list) list \<Rightarrow> 'k \<Rightarrow> 'a set" where
  "peers_of nodes v = (case map_of nodes v of None \<Rightarrow> {} | Some ps \<Rightarrow> set ps)"

definition wf_nodes :: "(int \<times> int list) list \<Rightarrow> bool" where
  "wf_nodes nodes = (distinct (map fst nodes) \<and> (\<forall>(n, ps) \<in> set nodes. distinct ps))"

section \<open>Coupler addressing (output.py, \<open>coupler_number\<close>)\<close>

text \<open>
  \<open>linear_index_to_chimera\<close> is imported from \<open>dwave_sapi2.util\<close> (or from \<open>fake_dwave\<close>)
  and is not part of the two source files; \<open>coupler_number\<close> takes it as its first argument
  \<open>lin2chim\<close>.  A result that is not two lists of four numbers fails the destructuring
  assignment with \<open>ValueError\<close>.
\<close>

definition coupler_number ::
  "(int list \<Rightarrow> int \<Rightarrow> int \<Rightarrow> int \<Rightarrow> (int \<times> int \<times> int \<times> int) list)
     \<Rightarrow> int \<Rightarrow> int \<Rightarrow> int \<Rightarrow> int \<Rightarrow> int \<Rightarrow> exn + int" where
  "coupler_number lin2chim M N L q1 q2 =
     (let qmin = min q1 q2; qmax = max q1 q2
      in case lin2chim [qmin, qmax] M N L of
           [(imin, jmin, umin, kmin), (imax, jmax, umax, kmax)] \<Rightarrow>
             (let cell_links = L * L in
              if imin = imax \<and> jmin = jmax \<and> umin \<noteq> umax
              then Inr (cell_links * (imin * M + jmin) + kmin * L + kmax)
              else
                (let total_intra = cell_links * M * N in
                 if imin = imax \<and> jmin + 1 = jmax \<and> umin = umax \<and> kmin = kmax
                 then Inr (total_intra + L * (imin * (M - 1) + jmin) + kmin)
                 else
                   (let total_horiz = (M - 1) * N * L in
                    if imin + 1 = imax \<and> jmin = jmax \<and> umin = umax \<and> kmin = kmax
                    then Inr (total_intra + total_horiz + L * (imin * M + jmin) + kmin)
                    else Inl IndexError)))
         | _ \<Rightarrow> Inl ValueError)"

text \<open>
  Modelled from the spec: the external coordinate decomposition \<open>linear_index_to_chimera\<close>,
  which "maps a linear qubit index to (row, column, shore, in-shore offset)".  Its code is
  missing; this is the row-major layout of a Chimera lattice with \<open>n\<close> cells per row and
  shores of \<open>t\<close> qubits: the index of \<open>(i, j, u, k)\<close> is \<open>((i * n + j) * 2 + u) * t + k\<close>.
\<close>

definition linear_index_to_chimera ::
  "int list \<Rightarrow> int \<Rightarrow> int \<Rightarrow> int \<Rightarrow> (int \<times> int \<times> int \<times> int) list" where
  "linear_index_to_chimera linear_indices m n t =
     map (\<lambda>q. (q div (n * (2 * t)),
               (q mod (n * (2 * t))) div (2 * t),
               ((q mod (n * (2 * t))) mod (2 * t)) div t,
               ((q mod (n * (2 * t))) mod (2 * t)) mod t)) linear_indices"

text \<open>
  Modelled from the spec: the synthetic Chimera hardware graph with known \<open>(L, M, N)\<close>, whose
  generator is missing.  It is "a 2D grid of bipartite unit cells" with \<open>N\<close> rows and \<open>M\<close>
  columns of cells and \<open>L\<close> qubits per shore: inside a cell every qubit of shore 0 is coupled
  to every qubit of shore 1 (\<open>L * L\<close> couplers per cell); a qubit of shore 1 is coupled to the
  qubit with the same shore and offset in the next cell of its row (\<open>(M - 1) * N * L\<close>
  horizontal couplers), a qubit of shore 0 to the one in the next cell of its column.
\<close>

definition chimera_index :: "int \<Rightarrow> int \<Rightarrow> int \<Rightarrow> int \<Rightarrow> int \<Rightarrow> int \<Rightarrow> int" where
  "chimera_index L M i j u k = ((i * M + j) * 2 + u) * L + k"

definition chimera_intra :: "int \<Rightarrow> int \<Rightarrow> int \<Rightarrow> (int \<times> int) list" where
  "chimera_intra L M N =
     concat (map (\<lambda>i. concat (map (\<lambda>j. concat (map (\<lambda>k1. map (\<lambda>k2.
        (chimera_index L M i j 0 k1, chimera_index L M i j 1 k2))
        [0..L - 1]) [0..L - 1])) [0..M - 1])) [0..N - 1])"

definition chimera_horizontal :: "int \<Rightarrow> int \<Rightarrow> int \<Rightarrow> (int \<times> int) list" where
  "chimera_horizontal L M N =
     concat (map (\<lambda>i. concat (map (\<lambda>j. map (\<lambda>k.
        (chimera_index L M i j 1 k, chimera_index L M i (j + 1) 1 k))
        [0..L - 1]) [0..M - 2])) [0..N - 1])"

definition chimera_vertical :: "int \<Rightarrow> int \<Rightarrow> int \<Rightarrow> (int \<times> int) list" where
  "chimera_vertical L M N =
     concat (map (\<lambda>i. concat (map (\<lambda>j. map (\<lambda>k.
        (chimera_index L M i j 0 k, chimera_index L M (i + 1) j 0 k))
        [0..L - 1]) [0..M - 1])) [0..N - 2])"

definition chimera_couplers :: "int \<Rightarrow> int \<Rightarrow> int \<Rightarrow> (int \<times> int) list" where
  "chimera_couplers L M N = chimera_intra L M N @ chimera_horizontal L M N @ chimera_vertical L M N"

section \<open>Edge canonicalisation: proofs\<close>

lemma update_fresh: "k \<notin> fst ` set al \<Longrightarrow> AList.update k v al = al @ [(k, v)]"
  by (induction al) auto

lemma set_update_subset: "set (AList.update k v al) \<subseteq> insert (k, v) (set al)"
  by (induction al) auto

lemma entry_keys: "canonical_keys acc \<Longrightarrow> canonical_keys (canonicalize_entry ops x acc)"
proof -
  assume a: "canonical_keys acc"
  obtain q1 q2 wt where x: "x = ((q1, q2), wt)" by (metis prod.exhaust)
  have upd: "canonical_keys (AList.update (a, b) v acc)" if "a < b" for a b v
    using set_update_subset[of "(a, b)" v acc] a that
    unfolding canonical_keys_def by fastforce
  show ?thesis
    using a upd[of q1 q2] upd[of q2 q1]
    by (simp add: canonicalize_entry_def x Let_def)
qed

lemma fold_keys: "canonical_keys acc \<Longrightarrow> canonical_keys (fold (canonicalize_entry ops) xs acc)"
  by (induction xs arbitrary: acc) (simp_all add: entry_keys)

lemma entry_distinct:
  "distinct (map fst acc) \<Longrightarrow> distinct (map fst (canonicalize_entry ops x acc))"
  by (cases x) (simp add: canonicalize_entry_def Let_def distinct_update split: prod.splits)

lemma fold_distinct:
  "distinct (map fst acc) \<Longrightarrow> distinct (map fst (fold (canonicalize_entry ops) xs acc))"
  by (induction xs arbitrary: acc) (simp_all add: entry_distinct)

lemma entry_lookup:
  "map_of (canonicalize_entry ops x acc) e =
     (if edge_weights ops [x] e = [] then map_of acc e
      else Some (foldl (fadd ops) (defaultdict_get ops acc e) (edge_weights ops [x] e)))"
proof -
  obtain q1 q2 wt where x: "x = ((q1, q2), wt)" by (metis prod.exhaust)
  show ?thesis
  proof (cases "q1 = q2 \<or> feq ops wt (fzero ops)")
    case True
    then show ?thesis by (auto simp: x canonicalize_entry_def edge_weights_def)
  next
    case False
    then have ne: "q1 \<noteq> q2" "\<not> feq ops wt (fzero ops)" by auto
    show ?thesis
    proof (cases "q1 > q2")
      case True
      then have mm: "min q1 q2 = q2" "max q1 q2 = q1" by auto
      show ?thesis using ne True
        by (simp add: x canonicalize_entry_def edge_weights_def update_conv' mm Let_def)
    next
      case False
      then have mm: "min q1 q2 = q1" "max q1 q2 = q2" by auto
      show ?thesis using ne False
        by (simp add: x canonicalize_entry_def edge_weights_def update_conv' mm Let_def)
    qed
  qed
qed

lemma edge_weights_Cons:
  "edge_weights ops (x # xs) e = edge_weights ops [x] e @ edge_weights ops xs e"
  by (simp add: edge_weights_def)

lemma fold_lookup:
  "map_of (fold (canonicalize_entry ops) xs acc) e =
     (if edge_weights ops xs e = [] then map_of acc e
      else Some (foldl (fadd ops) (defaultdict_get ops acc e) (edge_weights ops xs e)))"
proof (induction xs arbitrary: acc)
  case Nil
  then show ?case by (simp add: edge_weights_def)
next
  case (Cons x xs)
  have step: "defaultdict_get ops (canonicalize_entry ops x acc) e =
      foldl (fadd ops) (defaultdict_get ops acc e) (edge_weights ops [x] e)"
    by (simp add: defaultdict_get_def entry_lookup)
  show ?case
    by (simp add: Cons.IH step entry_lookup edge_weights_Cons[of ops x xs])
qed

lemma entry_canonical:
  assumes "a < b" "(a, b) \<notin> fst ` set acc"
  shows "canonicalize_entry ops ((a, b), w) acc
           = (if feq ops w (fzero ops) then acc else acc @ [((a, b), fadd ops (fzero ops) w)])"
proof -
  have "map_of acc (a, b) = None" using assms(2) by (simp add: map_of_eq_None_iff)
  then show ?thesis using assms
    by (simp add: canonicalize_entry_def defaultdict_get_def update_fresh)
qed

lemma fold_canonical:
  "distinct (map fst xs) \<Longrightarrow> canonical_keys xs \<Longrightarrow>
   fst ` set xs \<inter> fst ` set acc = {} \<Longrightarrow>
   fold (canonicalize_entry ops) xs acc = acc @ rezeroed ops xs"
proof (induction xs arbitrary: acc)
  case Nil
  then show ?case by (simp add: rezeroed_def)
next
  case (Cons x xs)
  obtain a b w where x: "x = ((a, b), w)" by (metis prod.exhaust)
  from Cons.prems have lt: "a < b" by (simp add: canonical_keys_def x)
  from Cons.prems have fresh: "(a, b) \<notin> fst ` set acc" by (auto simp: x)
  let ?acc' = "canonicalize_entry ops x acc"
  have acc': "?acc' = (if feq ops w (fzero ops) then acc
                       else acc @ [((a, b), fadd ops (fzero ops) w)])"
    using entry_canonical[OF lt fresh] by (simp add: x)
  have d: "distinct (map fst xs)" and c: "canonical_keys xs"
    using Cons.prems by (simp_all add: canonical_keys_def)
  have notin: "(a, b) \<notin> fst ` set xs" using Cons.prems(1) by (simp add: x)
  have disj: "fst ` set xs \<inter> fst ` set ?acc' = {}"
    using Cons.prems(3) notin by (auto simp: acc')
  have "fold (canonicalize_entry ops) xs ?acc' = ?acc' @ rezeroed ops xs"
    by (rule Cons.IH[OF d c disj])
  moreover have "rezeroed ops (x # xs)
      = (if feq ops w (fzero ops) then [] else [((a, b), fadd ops (fzero ops) w)]) @ rezeroed ops xs"
    by (simp add: rezeroed_def x)
  ultimately show ?case by (simp add: acc')
qed

lemma canonicalize_twice:
  "canonicalize_strengths ops (canonicalize_strengths ops strs)
     = rezeroed ops (canonicalize_strengths ops strs)"
proof -
  have k: "canonical_keys (canonicalize_strengths ops strs)"
    unfolding canonicalize_strengths_def by (rule fold_keys) (simp add: canonical_keys_def)
  have d: "distinct (map fst (canonicalize_strengths ops strs))"
    unfolding canonicalize_strengths_def by (rule fold_distinct) simp
  show ?thesis
    using fold_canonical[OF d k, of "[]" ops]
    by (simp add: canonicalize_strengths_def[of ops "canonicalize_strengths ops strs"])
qed

lemma dict_eq_rezeroed:
  assumes d: "distinct (map fst al)"
    and h: "\<forall>(k, w) \<in> set al. \<not> feq ops w (fzero ops) \<and> feq ops (fadd ops (fzero ops) w) w"
  shows "dict_eq ops (rezeroed ops al) al"
proof -
  have f: "filter (\<lambda>(k, w). \<not> feq ops w (fzero ops)) al = al"
    using h by (intro filter_True) auto
  have "list_all (\<lambda>(k, v). case map_of al k of None \<Rightarrow> False | Some v' \<Rightarrow> feq ops v v')
          (map (\<lambda>(k, w). (k, fadd ops (fzero ops) w)) al)"
    unfolding list_all_iff
  proof (clarsimp)
    fix k w assume m: "(k, w) \<in> set al"
    then have "map_of al k = Some w" using d by simp
    moreover have "feq ops (fadd ops (fzero ops) w) w" using h m by auto
    ultimately show "case map_of al k of None \<Rightarrow> False
                     | Some v' \<Rightarrow> feq ops (fadd ops (fzero ops) w) v'"
      by simp
  qed
  then show ?thesis by (simp add: dict_eq_def rezeroed_def f)
qed

text \<open>
  C1 (as stated): \<open>canonicalize_strengths\<close> is idempotent and its output has no zero-weight
  entry.  This fails where the weights of the two orientations of an edge cancel: the guard
  \<open>wt == 0.0\<close> looks at the entries of the input, not at the sums.  At the map
  \<open>{(1,2): 1.0, (2,1): -1.0}\<close> (where \<open>0.0 + 1.0\<close> and \<open>1.0 + -1.0\<close> are exact) the output is
  \<open>{(1,2): 0.0}\<close>, and the output of a second application is empty.
\<close>

theorem canonicalize_strengths_not_idempotent:
  "canonicalize_strengths exact_ops [((1, 2), 1), ((2, 1), -1)] = [((1, 2), 0)]
   \<and> canonicalize_strengths exact_ops
        (canonicalize_strengths exact_ops [((1, 2), 1), ((2, 1), -1)]) = []
   \<and> \<not> dict_eq exact_ops
          (canonicalize_strengths exact_ops
             (canonicalize_strengths exact_ops [((1, 2), 1), ((2, 1), -1)]))
          (canonicalize_strengths exact_ops [((1, 2), 1), ((2, 1), -1)])"
  by (simp add: canonicalize_strengths_def canonicalize_entry_def defaultdict_get_def
      exact_ops_def dict_eq_def)

text \<open>
  C1 (amended): for the addition and the comparison of the weights as the code performs them,
  the output of \<open>canonicalize_strengths\<close> is a dictionary (distinct keys) keyed by pairs
  \<open>(a, b)\<close> with \<open>a < b\<close>, so by (min, max) and without self-loops.  Every key comes from an
  entry of the input for that edge, in either orientation, that is not a self-loop and whose
  weight is not \<open>== 0.0\<close>; every edge whose sum differs from \<open>0.0\<close> has a key; and the weight
  read at an edge (\<open>0.0\<close> when the key is absent) is the sum of these weights, added to
  \<open>0.0\<close> one after the other in the order of the input.  A second application drops the
  entries whose weight is \<open>== 0.0\<close> and replaces every other weight \<open>w\<close> by \<open>0.0 + w\<close>; so its
  result is \<open>==\<close> to the first output whenever no weight \<open>w\<close> of the first output is
  \<open>== 0.0\<close> and each satisfies \<open>0.0 + w == w\<close> (each does, unless it is NaN).
\<close>

theorem canonicalize_strengths_spec:
  "canonical_keys (canonicalize_strengths ops strs)
   \<and> distinct (map fst (canonicalize_strengths ops strs))
   \<and> (e \<in> fst ` set (canonicalize_strengths ops strs) \<longrightarrow> edge_weights ops strs e \<noteq> [])
   \<and> (foldl (fadd ops) (fzero ops) (edge_weights ops strs e) \<noteq> fzero ops
        \<longrightarrow> e \<in> fst ` set (canonicalize_strengths ops strs))
   \<and> defaultdict_get ops (canonicalize_strengths ops strs) e
       = foldl (fadd ops) (fzero ops) (edge_weights ops strs e)
   \<and> canonicalize_strengths ops (canonicalize_strengths ops strs)
       = rezeroed ops (canonicalize_strengths ops strs)
   \<and> ((\<forall>(k, w) \<in> set (canonicalize_strengths ops strs).
          \<not> feq ops w (fzero ops) \<and> feq ops (fadd ops (fzero ops) w) w) \<longrightarrow>
       dict_eq ops (canonicalize_strengths ops (canonicalize_strengths ops strs))
         (canonicalize_strengths ops strs))"
proof -
  let ?C = "canonicalize_strengths ops strs"
  have k: "canonical_keys ?C"
    unfolding canonicalize_strengths_def by (rule fold_keys) (simp add: canonical_keys_def)
  have d: "distinct (map fst ?C)"
    unfolding canonicalize_strengths_def by (rule fold_distinct) simp
  have l: "map_of ?C e =
       (if edge_weights ops strs e = [] then None
        else Some (foldl (fadd ops) (fzero ops) (edge_weights ops strs e)))"
    by (simp add: canonicalize_strengths_def fold_lookup defaultdict_get_def)
  have k1: "e \<in> fst ` set ?C \<longrightarrow> edge_weights ops strs e \<noteq> []"
  proof
    assume "e \<in> fst ` set ?C"
    then have "map_of ?C e \<noteq> None" by (simp add: map_of_eq_None_iff)
    with l show "edge_weights ops strs e \<noteq> []" by auto
  qed
  have k2: "foldl (fadd ops) (fzero ops) (edge_weights ops strs e) \<noteq> fzero ops
        \<longrightarrow> e \<in> fst ` set ?C"
  proof
    assume "foldl (fadd ops) (fzero ops) (edge_weights ops strs e) \<noteq> fzero ops"
    then have "edge_weights ops strs e \<noteq> []" by auto
    with l have "map_of ?C e \<noteq> None" by simp
    then show "e \<in> fst ` set ?C" by (simp add: map_of_eq_None_iff)
  qed
  have g: "defaultdict_get ops ?C e = foldl (fadd ops) (fzero ops) (edge_weights ops strs e)"
    by (simp add: defaultdict_get_def l)
  have i: "(\<forall>(k, w) \<in> set ?C. \<not> feq ops w (fzero ops) \<and> feq ops (fadd ops (fzero ops) w) w)
       \<longrightarrow> dict_eq ops (canonicalize_strengths ops ?C) ?C"
    using dict_eq_rezeroed[OF d] by (simp only: canonicalize_twice) blast
  show ?thesis using k d k1 k2 g i canonicalize_twice[of ops strs] by blast
qed

theorem canonicalize_strengths_spec_witness:
  "canonicalize_strengths exact_ops
     [((1, 2), 1), ((2, 1), 3), ((5, 5), 2), ((4, 3), 0), ((7, 3), 2)]
     = [((1, 2), 4), ((3, 7), 2)]
   \<and> \<not> feq exact_ops 4 (fzero exact_ops) \<and> feq exact_ops (fadd exact_ops (fzero exact_ops) 4) 4
   \<and> \<not> feq exact_ops 2 (fzero exact_ops) \<and> feq exact_ops (fadd exact_ops (fzero exact_ops) 2) 2
   \<and> dict_eq exact_ops
        (canonicalize_strengths exact_ops (canonicalize_strengths exact_ops
           [((1, 2), 1), ((2, 1), 3), ((5, 5), 2), ((4, 3), 0), ((7, 3), 2)]))
        (canonicalize_strengths exact_ops
           [((1, 2), 1), ((2, 1), 3), ((5, 5), 2), ((4, 3), 0), ((7, 3), 2)])
   \<and> defaultdict_get exact_ops (canonicalize_strengths exact_ops
        [((1, 2), 1), ((2, 1), 3), ((5, 5), 2), ((4, 3), 0), ((7, 3), 2)]) (1, 2) = 4"
proof -
  have v: "canonicalize_strengths exact_ops
     [((1, 2), 1), ((2, 1), 3), ((5, 5), 2), ((4, 3), 0), ((7, 3), 2)]
     = [((1, 2), 4), ((3, 7), 2)]"
    by (simp add: canonicalize_strengths_def canonicalize_entry_def defaultdict_get_def
        exact_ops_def)
  have o: "\<not> feq exact_ops 4 (fzero exact_ops)"
    "feq exact_ops (fadd exact_ops (fzero exact_ops) 4) 4"
    "\<not> feq exact_ops 2 (fzero exact_ops)"
    "feq exact_ops (fadd exact_ops (fzero exact_ops) 2) 2"
    by (simp_all add: exact_ops_def)
  let ?E = "[((1, 2), 1), ((2, 1), 3), ((5, 5), 2), ((4, 3), 0), ((7, 3), 2)] :: real strengths"
  have hyp: "\<forall>(k, w) \<in> set (canonicalize_strengths exact_ops ?E).
          \<not> feq exact_ops w (fzero exact_ops)
          \<and> feq exact_ops (fadd exact_ops (fzero exact_ops) w) w"
    using o by (simp add: v)
  have de: "dict_eq exact_ops
        (canonicalize_strengths exact_ops (canonicalize_strengths exact_ops ?E))
        (canonicalize_strengths exact_ops ?E)"
    using canonicalize_strengths_spec[of exact_ops ?E "(1, 2)"] hyp by blast
  have g: "defaultdict_get exact_ops (canonicalize_strengths exact_ops ?E) (1, 2) = 4"
    by (simp add: v defaultdict_get_def)
  show ?thesis
    using v o de g by (intro conjI)
qed

section \<open>Coupler addressing: proofs\<close>

text \<open>
  C2: for the synthetic Chimera graph with \<open>L = 4\<close>, \<open>M = 2\<close>, \<open>N = 2\<close> there are 80
  couplers, 64 inside the cells, 8 horizontal and 8 vertical, all different; \<open>coupler_number\<close>
  fails on none of them and numbers them with the integers 0 to 79, each used once.  The
  numbers come out in the order in which the couplers are listed, and do not depend on the
  order of the two qubits of a coupler.
\<close>

theorem chimera_4_2_2_coupler_numbers:
  "length (chimera_intra 4 2 2) = 64
   \<and> length (chimera_horizontal 4 2 2) = 8
   \<and> length (chimera_vertical 4 2 2) = 8
   \<and> length (chimera_couplers 4 2 2) = 80
   \<and> distinct (chimera_couplers 4 2 2)
   \<and> map (\<lambda>(q1, q2). coupler_number linear_index_to_chimera 2 2 4 q1 q2) (chimera_couplers 4 2 2)
       = map Inr [0..79]
   \<and> map (\<lambda>(q1, q2). coupler_number linear_index_to_chimera 2 2 4 q2 q1) (chimera_couplers 4 2 2)
       = map Inr [0..79]
   \<and> distinct (map (\<lambda>(q1, q2). coupler_number linear_index_to_chimera 2 2 4 q1 q2)
                  (chimera_couplers 4 2 2))
   \<and> set (map (\<lambda>(q1, q2). coupler_number linear_index_to_chimera 2 2 4 q1 q2)
             (chimera_couplers 4 2 2)) = Inr ` {0..79}"
proof -
  have n: "length (chimera_intra 4 2 2) = 64 \<and> length (chimera_horizontal 4 2 2) = 8
     \<and> length (chimera_vertical 4 2 2) = 8 \<and> length (chimera_couplers 4 2 2) = 80"
    by code_simp
  have d: "distinct (chimera_couplers 4 2 2)"
    by code_simp
  have a: "map (\<lambda>(q1, q2). coupler_number linear_index_to_chimera 2 2 4 q1 q2)
             (chimera_couplers 4 2 2) = map Inr [0..79]"
    by code_simp
  have b: "map (\<lambda>(q1, q2). coupler_number linear_index_to_chimera 2 2 4 q2 q1)
             (chimera_couplers 4 2 2) = map Inr [0..79]"
    by code_simp
  have i: "distinct (map Inr [0..79] :: (exn + int) list)"
    by (simp add: distinct_map)
  have s: "set (map Inr [0..79] :: (exn + int) list) = Inr ` {0..79}"
    by simp
  show ?thesis
    using n d b i s unfolding a by blast
qed

text \<open>
  C3 (as stated): the intra-cell address ends in \<open>shoreMin * L + shoreMax\<close>, the shores of
  the two qubits.  The code adds \<open>kmin * L + kmax\<close>, the in-shore offsets (the fourth
  component of the decomposition), not the shores (the third).  Under \<open>L = 4\<close>, \<open>M = N = 2\<close>
  qubits 2 and 7 decompose to \<open>(0, 0, 0, 2)\<close> and \<open>(0, 0, 1, 3)\<close>: the code returns
  \<open>2 * 4 + 3 = 11\<close>, the formula with the shores gives \<open>0 * 4 + 1 = 1\<close>.
\<close>

theorem intra_cell_address_not_shores:
  "linear_index_to_chimera [min 2 7, max 2 7] 2 2 4 = [(0, 0, 0, 2), (0, 0, 1, 3)]
   \<and> coupler_number linear_index_to_chimera 2 2 4 2 7 = Inr 11
   \<and> coupler_number linear_index_to_chimera 2 2 4 2 7 \<noteq> Inr (4 * 4 * (0 * 2 + 0) + 0 * 4 + 1)"
  by (simp add: coupler_number_def linear_index_to_chimera_def Let_def)

text \<open>
  C3 (amended): whatever the decomposition function is, when it sends the smaller and the
  larger qubit to the same (row, column) and to different shores, \<open>coupler_number\<close> returns
  \<open>L * L * (row * M + col) + offsetMin * L + offsetMax\<close>, where \<open>offsetMin\<close> and \<open>offsetMax\<close>
  are the in-shore offsets of the smaller and of the larger qubit.
\<close>

theorem intra_cell_address_offsets:
  assumes "lin2chim [min q1 q2, max q1 q2] M N L
             = [(row, col, shore_min, offset_min), (row, col, shore_max, offset_max)]"
    and "shore_min \<noteq> shore_max"
  shows "coupler_number lin2chim M N L q1 q2
           = Inr (L * L * (row * M + col) + offset_min * L + offset_max)"
  using assms by (simp add: coupler_number_def Let_def)

theorem intra_cell_address_offsets_witness:
  "linear_index_to_chimera [min 7 2, max 7 2] 2 2 4 = [(0, 0, 0, 2), (0, 0, 1, 3)]
   \<and> (0::int) \<noteq> 1
   \<and> coupler_number linear_index_to_chimera 2 2 4 7 2 = Inr (4 * 4 * (0 * 2 + 0) + 2 * 4 + 3)"
proof -
  have h: "linear_index_to_chimera [min 7 2, max 7 2] 2 2 4 = [(0, 0, 0, 2), (0, 0, 1, 3)]"
    by (simp add: linear_index_to_chimera_def)
  have ne: "(0::int) \<noteq> 1" by simp
  show ?thesis
    using h ne
      intra_cell_address_offsets
        [of linear_index_to_chimera 7 2 2 2 4 0 0 0 2 1 3, OF h ne]
    by simp
qed

section \<open>The symbol table: proofs\<close>

text \<open>
  C5: when both symbols are already defined and bound to different numbers, \<open>alias\<close> ends in
  \<open>abend\<close> (with its own message) and the table it leaves is the table it was given: forward
  map, reverse map and next number are unchanged.
\<close>

theorem alias_preexisting_atomic_failure:
  assumes "map_of (sym2num self) symA = Some n1"
    and "map_of (sym2num self) symB = Some n2"
    and "n1 \<noteq> n2"
  shows "SymbolMapping_alias self symA symB =
           (Inl (Abend (''Unable to alias pre-existing variables '' @ symA @ '' and '' @ symB)), self)"
  using assms by (simp add: SymbolMapping_alias_def alias_ensure_def)

theorem alias_preexisting_atomic_failure_witness:
  "map_of (sym2num \<lparr>sym2num = [(''a'', 0), (''b'', 1)],
                     num2syms = [(0, [''a'']), (1, [''b''])], next_sym_num = 2\<rparr>) ''a'' = Some 0
   \<and> map_of (sym2num \<lparr>sym2num = [(''a'', 0), (''b'', 1)],
                     num2syms = [(0, [''a'']), (1, [''b''])], next_sym_num = 2\<rparr>) ''b'' = Some 1
   \<and> (0::int) \<noteq> 1
   \<and> SymbolMapping_alias \<lparr>sym2num = [(''a'', 0), (''b'', 1)],
                           num2syms = [(0, [''a'']), (1, [''b''])], next_sym_num = 2\<rparr> ''a'' ''b''
      = (Inl (Abend ''Unable to alias pre-existing variables a and b''),
         \<lparr>sym2num = [(''a'', 0), (''b'', 1)],
          num2syms = [(0, [''a'']), (1, [''b''])], next_sym_num = 2\<rparr>)"
  using alias_preexisting_atomic_failure
          [of "\<lparr>sym2num = [(''a'', 0), (''b'', 1)],
                num2syms = [(0, [''a'']), (1, [''b''])], next_sym_num = 2\<rparr>" "''a''" 0 "''b''" 1]
  by simp

section \<open>Deferred prefixes: proofs\<close>

lemma str_contains_append: "str_contains sub s \<Longrightarrow> str_contains sub (p @ s)"
  by (induction p) (auto simp: neq_Nil_conv)

lemma str_replace_prefix:
  "old \<noteq> [] \<Longrightarrow> str_replace (old @ rest) old new = new @ str_replace rest old new"
  by (subst str_replace.simps) simp

lemma resolve_or_define_ok:
  "\<exists>n self'. resolve_or_define self s = (Inr n, self') \<and> map_of (sym2num self') s = Some n"
proof (cases "map_of (sym2num self) s")
  case None
  then have "s \<notin> fst ` set (sym2num self)" by (simp add: map_of_eq_None_iff)
  with None show ?thesis
    by (simp add: resolve_or_define_def to_number_def new_symbol_def update_conv')
next
  case (Some n)
  then show ?thesis by (simp add: resolve_or_define_def to_number_def)
qed

text \<open>
  C8: for a symbol that contains the marker \<open>!next.\<close>, \<open>apply_prefix\<close> and
  \<open>symbol_to_number\<close> raise \<open>RemainingNextException\<close> exactly when the current prefix or the
  next prefix is missing, and \<open>symbol_to_number\<close> then leaves the table as it was.  When both
  are given, \<open>apply_prefix\<close> returns the prefixed symbol with every occurrence of the current
  prefix followed by the marker replaced by the next prefix (so a symbol that starts with the
  marker starts with the next prefix afterwards), and \<open>symbol_to_number\<close> makes the same
  replacement in the symbol and then looks the rewritten symbol up, defining it when it is new;
  this never fails.
\<close>

theorem deferred_prefix_resolution:
  assumes m: "str_contains ''!next.'' symb"
  shows "((\<exists>e. apply_prefix symb p np = Inl e) \<longleftrightarrow> (p = None \<or> np = None))
     \<and> (p = None \<or> np = None \<longrightarrow> apply_prefix symb p np = Inl RemainingNextException)
     \<and> apply_prefix symb (Some pr) (Some nx) = Inr (str_replace (pr @ symb) (pr @ ''!next.'') nx)
     \<and> apply_prefix (''!next.'' @ rest) (Some pr) (Some nx)
         = Inr (nx @ str_replace rest (pr @ ''!next.'') nx)
     \<and> ((\<exists>e. fst (symbol_to_number tab symb p np) = Inl e) \<longleftrightarrow> (p = None \<or> np = None))
     \<and> (p = None \<or> np = None \<longrightarrow>
          symbol_to_number tab symb p np = (Inl RemainingNextException, tab))
     \<and> symbol_to_number tab symb (Some pr) (Some nx)
          = resolve_or_define tab (str_replace symb (pr @ ''!next.'') nx)
     \<and> (\<exists>n tab'. symbol_to_number tab symb (Some pr) (Some nx) = (Inr n, tab')
           \<and> map_of (sym2num tab') (str_replace symb (pr @ ''!next.'') nx) = Some n)"
proof -
  have mp: "str_contains ''!next.'' (q @ symb)" for q
    using m by (rule str_contains_append)
  have a1: "p = None \<or> np = None \<Longrightarrow> apply_prefix symb p np = Inl RemainingNextException"
    using m mp by (auto simp: apply_prefix_def split: option.splits)
  have a2: "apply_prefix symb (Some q) (Some r) = Inr (str_replace (q @ symb) (q @ ''!next.'') r)"
    for q r
    using mp[of q] by (simp add: apply_prefix_def)
  have a0: "(\<exists>e. apply_prefix symb p np = Inl e) \<longleftrightarrow> (p = None \<or> np = None)"
  proof (cases "p = None \<or> np = None")
    case True
    then show ?thesis using a1 by simp
  next
    case False
    then obtain q r where "p = Some q" "np = Some r" by auto
    then show ?thesis using a2 by simp
  qed
  have mr: "str_contains ''!next.'' (pr @ ''!next.'' @ rest)"
    by (rule str_contains_append) simp
  have a3: "apply_prefix (''!next.'' @ rest) (Some pr) (Some nx)
         = Inr (nx @ str_replace rest (pr @ ''!next.'') nx)"
    using mr str_replace_prefix[of "pr @ ''!next.''" rest nx]
    by (simp add: apply_prefix_def)
  have s1: "p = None \<or> np = None \<Longrightarrow>
          symbol_to_number tab symb p np = (Inl RemainingNextException, tab)"
    using m by (auto simp: symbol_to_number_def split: option.splits)
  have s2: "symbol_to_number tab symb (Some q) (Some r)
          = resolve_or_define tab (str_replace symb (q @ ''!next.'') r)" for q r
    using m by (simp add: symbol_to_number_def)
  have s3: "\<exists>n tab'. symbol_to_number tab symb (Some q) (Some r) = (Inr n, tab')
           \<and> map_of (sym2num tab') (str_replace symb (q @ ''!next.'') r) = Some n" for q r
    using resolve_or_define_ok[of tab "str_replace symb (q @ ''!next.'') r"] by (simp add: s2)
  have s0: "(\<exists>e. fst (symbol_to_number tab symb p np) = Inl e) \<longleftrightarrow> (p = None \<or> np = None)"
  proof (cases "p = None \<or> np = None")
    case True
    then show ?thesis using s1 by simp
  next
    case False
    then obtain q r where "p = Some q" "np = Some r" by auto
    then show ?thesis using s3[of q r] by auto
  qed
  show ?thesis using a0 a1 a2 a3 s0 s1 s2 s3 by blast
qed

theorem deferred_prefix_resolution_witness:
  "str_contains ''!next.'' ''!next.x''
   \<and> apply_prefix ''!next.x'' (Some ''p.'') (Some ''q.'') = Inr ''q.x''
   \<and> apply_prefix ''!next.x'' (Some ''p.'') None = Inl RemainingNextException
   \<and> apply_prefix ''!next.x'' None (Some ''q.'') = Inl RemainingNextException"
proof -
  have h: "str_contains ''!next.'' ''!next.x''" by simp
  have r: "str_replace ''x'' ''p.!next.'' ''q.'' = ''x''" by code_simp
  show ?thesis
    using h r
      deferred_prefix_resolution[OF h, of "Some ''p.''" None "''p.''" "''q.''" "''x''" init_SymbolMapping]
      deferred_prefix_resolution[OF h, of None "Some ''q.''" "''p.''" "''q.''" "''x''" init_SymbolMapping]
    by simp
qed

section \<open>Topology inference: proofs\<close>

lemma set_first_occurrences: "set (first_occurrences xs) = set xs"
  by (induction xs) auto

lemma distinct_first_occurrences: "distinct (first_occurrences xs)"
  by (induction xs) (auto simp: set_first_occurrences)

lemma init_keys:
  "map fst (fold (\<lambda>d m. AList.update d (0::int) m) ds acc)
     = map fst acc @ filter (\<lambda>d. d \<notin> fst ` set acc) (first_occurrences ds)"
proof (induction ds arbitrary: acc)
  case Nil
  then show ?case by simp
next
  case (Cons d ds)
  show ?case
  proof (cases "d \<in> fst ` set acc")
    case True
    then have k: "map fst (AList.update d 0 acc) = map fst acc"
      by (simp add: update_keys)
    then have s: "fst ` set (AList.update d 0 acc) = fst ` set acc"
      by (metis list.set_map)
    have "filter (\<lambda>x. x \<notin> fst ` set acc) (filter (\<lambda>y. y \<noteq> d) (first_occurrences ds))
            = filter (\<lambda>x. x \<notin> fst ` set acc) (first_occurrences ds)"
      using True by (auto intro!: filter_cong)
    then show ?thesis using True by (simp add: Cons.IH k s)
  next
    case False
    then have k: "map fst (AList.update d 0 acc) = map fst acc @ [d]"
      by (simp add: update_keys)
    then have s: "fst ` set (AList.update d 0 acc) = insert d (fst ` set acc)"
      by (metis dom_update insert_is_Un)
    have "filter (\<lambda>x. x \<notin> insert d (fst ` set acc)) (first_occurrences ds)
            = filter (\<lambda>x. x \<notin> fst ` set acc) (filter (\<lambda>y. y \<noteq> d) (first_occurrences ds))"
      by (auto intro!: filter_cong)
    then show ?thesis using False by (simp add: Cons.IH k s)
  qed
qed

lemma init_lookup:
  "map_of (fold (\<lambda>d m. AList.update d (0::int) m) ds acc) d
     = (if d \<in> set ds then Some 0 else map_of acc d)"
  by (induction ds arbitrary: acc) (auto simp: update_conv')

lemma tally_loop_props:
  "set ds \<subseteq> fst ` set T \<Longrightarrow>
   \<exists>T'. tally_loop T st ds
           = Inr (T', if ds = [] then st else Some (sort_key (\<lambda>dt. - snd dt) T'))
       \<and> map fst T' = map fst T
       \<and> (\<forall>d. map_of T' d = map_option (\<lambda>t. t + int (count_list ds d)) (map_of T d))"
proof (induction ds arbitrary: T st)
  case Nil
  then show ?case by (simp add: option.map_ident)
next
  case (Cons d ds)
  from Cons.prems obtain t where t: "map_of T d = Some t"
    by (metis list.set_intros(1) subsetD map_of_eq_None_iff option.exhaust)
  let ?T1 = "AList.update d (t + 1) T"
  have k1: "map fst ?T1 = map fst T"
    using Cons.prems by (simp add: update_keys)
  then have "fst ` set ?T1 = fst ` set T" by (metis list.set_map)
  with Cons.prems have sub: "set ds \<subseteq> fst ` set ?T1" by simp
  from Cons.IH[OF sub, of "Some (sort_key (\<lambda>dt. - snd dt) ?T1)"]
  obtain T' where T': "tally_loop ?T1 (Some (sort_key (\<lambda>dt. - snd dt) ?T1)) ds
           = Inr (T', if ds = [] then Some (sort_key (\<lambda>dt. - snd dt) ?T1)
                      else Some (sort_key (\<lambda>dt. - snd dt) T'))"
     and kT: "map fst T' = map fst ?T1"
     and lT: "\<forall>x. map_of T' x = map_option (\<lambda>t. t + int (count_list ds x)) (map_of ?T1 x)"
    by blast
  have same: "ds = [] \<Longrightarrow> T' = ?T1"
    using T' by simp
  have res: "tally_loop T st (d # ds) = Inr (T', Some (sort_key (\<lambda>dt. - snd dt) T'))"
    using T' same by (cases "ds = []") (simp_all add: t Let_def)
  have look: "map_of T' x = map_option (\<lambda>t. t + int (count_list (d # ds) x)) (map_of T x)" for x
    using lT t by (cases "x = d") (simp_all add: update_conv')
  show ?case using res kT k1 look by simp
qed


lemma sorted_tallies_eq:
  assumes "cs \<noteq> []"
  shows "\<exists>T. tally_loop (fold (\<lambda>d m. AList.update d 0 m) (coupler_distances cs) []) None
               (coupler_distances cs) = Inr (T, Some (ranked_distances cs))"
proof -
  let ?ds = "coupler_distances cs"
  let ?T0 = "fold (\<lambda>d m. AList.update d (0::int) m) ?ds []"
  have ne: "?ds \<noteq> []" using assms by (simp add: coupler_distances_def)
  have k0: "map fst ?T0 = first_occurrences ?ds"
    using init_keys[of ?ds "[]"] by simp
  then have "fst ` set ?T0 = set ?ds"
    by (metis list.set_map set_first_occurrences)
  then have sub: "set ?ds \<subseteq> fst ` set ?T0" by simp
  from tally_loop_props[OF sub, of None] ne
  obtain T' where r: "tally_loop ?T0 None ?ds = Inr (T', Some (sort_key (\<lambda>dt. - snd dt) T'))"
     and kT: "map fst T' = map fst ?T0"
     and lT: "\<forall>d. map_of T' d = map_option (\<lambda>t. t + int (count_list ?ds d)) (map_of ?T0 d)"
    by auto
  have d: "distinct (map fst T')"
    by (simp add: kT k0 distinct_first_occurrences)
  have "T' = map (\<lambda>d. (d, int (count_list ?ds d))) (first_occurrences ?ds)"
  proof (rule nth_equalityI)
    show "length T' = length (map (\<lambda>d. (d, int (count_list ?ds d))) (first_occurrences ?ds))"
      by (metis kT k0 length_map)
  next
    fix i assume i: "i < length T'"
    then have f: "fst (T' ! i) = first_occurrences ?ds ! i"
      by (metis kT k0 nth_map)
    have m: "T' ! i \<in> set T'" using i by simp
    then have "map_of T' (fst (T' ! i)) = Some (snd (T' ! i))"
      using d by simp
    moreover have "fst (T' ! i) \<in> set ?ds"
      using m by (metis kT k0 list.set_map set_first_occurrences imageI)
    ultimately have "snd (T' ! i) = int (count_list ?ds (fst (T' ! i)))"
      using lT by (simp add: init_lookup)
    then show "T' ! i = map (\<lambda>d. (d, int (count_list ?ds d))) (first_occurrences ?ds) ! i"
      using i f by (metis kT k0 length_map nth_map prod.collapse)
  qed
  then show ?thesis using r by (auto simp: ranked_distances_def)
qed


lemma ranked_set:
  "set (ranked_distances cs)
     = (\<lambda>d. (d, int (count_list (coupler_distances cs) d))) ` set (coupler_distances cs)"
  by (simp add: ranked_distances_def set_first_occurrences)

lemma ranked_sorted: "sorted (map (\<lambda>dt. - snd dt) (ranked_distances cs))"
  by (simp add: ranked_distances_def sorted_sort_key)

lemma ranked_head:
  assumes "ranked_distances cs = (L, t) # rest"
  shows "L \<in> set (coupler_distances cs)"
    and "t = int (count_list (coupler_distances cs) L)"
    and "count_list (coupler_distances cs) d \<le> count_list (coupler_distances cs) L"
    and "0 \<le> L"
proof -
  let ?ds = "coupler_distances cs"
  have "(L, t) \<in> set (ranked_distances cs)" using assms by simp
  then show L: "L \<in> set ?ds" and t: "t = int (count_list ?ds L)"
    by (auto simp: ranked_set)
  show "count_list ?ds d \<le> count_list ?ds L"
  proof (cases "d \<in> set ?ds")
    case True
    then have "(d, int (count_list ?ds d)) \<in> set (ranked_distances cs)"
      by (simp add: ranked_set)
    then have "d = L \<and> int (count_list ?ds d) = t \<or> (d, int (count_list ?ds d)) \<in> set rest"
      using assms by auto
    moreover have "\<forall>x \<in> set rest. - t \<le> - snd x"
      using ranked_sorted[of cs] assms by simp
    ultimately show ?thesis using t by fastforce
  next
    case False
    then show ?thesis by (simp add: count_list_0_iff)
  qed
  from L show "0 \<le> L" by (auto simp: coupler_distances_def)
qed

lemma find_stride_pos:
  "0 < L \<Longrightarrow> find_stride L rest = Inr (stride_columns L rest) \<and> 1 \<le> stride_columns L rest"
proof (induction rest)
  case Nil
  then show ?case by (simp add: stride_columns_def)
next
  case (Cons a rest)
  obtain d t where a: "a = (d, t)" by (cases a)
  show ?case
  proof (cases "d > 2 * L")
    case True
    with Cons.prems have "1 \<le> d div (2 * L)"
      by (smt (verit) nonneg1_imp_zdiv_pos_iff)
    with True Cons.prems show ?thesis
      by (simp add: a stride_columns_def py_floordiv_def)
  next
    case False
    with Cons show ?thesis by (simp add: a stride_columns_def)
  qed
qed

lemma ceiling_floordiv:
  fixes a b :: int
  assumes b: "0 < b"
  shows "(a + b - 1) div b = - (- a div b)"
proof -
  have r: "0 \<le> a mod b" "a mod b < b" using b by simp_all
  have "a + b - 1 = (a mod b + b - 1) + (a div b) * b"
    by (simp add: algebra_simps)
  then have "(a + b - 1) div b = (a mod b + b - 1 + (a div b) * b) div b"
    by (rule arg_cong)
  also have "\<dots> = a div b + (a mod b + b - 1) div b"
    using b by (subst div_mult_self1) simp_all
  finally have e: "(a + b - 1) div b = a div b + (a mod b + b - 1) div b" .
  show ?thesis
  proof (cases "a mod b = 0")
    case True
    have "(b - 1) div b = 0" using b by (simp add: div_pos_pos_trivial)
    with True e b show ?thesis by (simp add: zdiv_zminus1_eq_if)
  next
    case False
    with r have "0 \<le> a mod b - 1" "a mod b - 1 < b" by simp_all
    then have z: "(a mod b - 1) div b = 0" by (simp add: div_pos_pos_trivial)
    have "(a mod b + b - 1) div b = (a mod b - 1 + b) div b" by (simp add: algebra_simps)
    also have "\<dots> = (a mod b - 1) div b + 1" using b by simp
    finally have "(a mod b + b - 1) div b = 1" using z by simp
    with False e b show ?thesis by (simp add: zdiv_zminus1_eq_if)
  qed
qed

lemma py_floordiv_ceiling:
  "0 < b \<Longrightarrow> py_floordiv (a + b - 1) b = Inr \<lceil>real_of_int a / real_of_int b\<rceil>"
  by (simp add: py_floordiv_def ceiling_divide_eq_div ceiling_floordiv)

lemma chimera_topology_eval:
  assumes n: "num_qubits props = Some n" and c: "couplers props = Some cs" and ne: "cs \<noteq> []"
  shows "\<exists>L t rest. ranked_distances cs = (L, t) # rest \<and>
           chimera_topology props =
             (case find_stride L rest of
                Inl e \<Rightarrow> Inl e
              | Inr M \<Rightarrow>
                  (case py_floordiv (n + 2 * L * M - 1) (2 * L * M) of
                     Inl e \<Rightarrow> Inl e
                   | Inr N \<Rightarrow> Inr (L, M, N)))"
proof -
  from sorted_tallies_eq[OF ne] obtain T where
    T: "tally_loop (fold (\<lambda>d m. AList.update d 0 m) (coupler_distances cs) []) None
          (coupler_distances cs) = Inr (T, Some (ranked_distances cs))"
    by blast
  have "first_occurrences (coupler_distances cs) \<noteq> []"
    using ne by (cases cs) (simp_all add: coupler_distances_def)
  then have "length (ranked_distances cs) \<noteq> 0"
    by (simp add: ranked_distances_def)
  then have "ranked_distances cs \<noteq> []" by simp
  then obtain L t rest where r: "ranked_distances cs = (L, t) # rest"
    by (cases "ranked_distances cs") auto
  have "chimera_topology props =
             (case find_stride L rest of
                Inl e \<Rightarrow> Inl e
              | Inr M \<Rightarrow>
                  (case py_floordiv (n + 2 * L * M - 1) (2 * L * M) of
                     Inl e \<Rightarrow> Inl e
                   | Inr N \<Rightarrow> Inr (L, M, N)))"
    using T r by (simp add: chimera_topology_def n c coupler_distances_def[symmetric])
  with r show ?thesis by blast
qed

lemma chimera_topology_pos:
  assumes n: "num_qubits props = Some n" and c: "couplers props = Some cs" and ne: "cs \<noteq> []"
    and r: "ranked_distances cs = (L, t) # rest" and L: "L \<noteq> 0"
  shows "chimera_topology props =
           Inr (L, stride_columns L rest,
                \<lceil>real_of_int n / real_of_int (2 * L * stride_columns L rest)\<rceil>)"
proof -
  have pos: "0 < L" using ranked_head(4)[OF r] L by simp
  from find_stride_pos[OF pos, of rest]
  have f: "find_stride L rest = Inr (stride_columns L rest)" and m: "1 \<le> stride_columns L rest"
    by simp_all
  have b: "0 < 2 * L * stride_columns L rest" using pos m by simp
  from chimera_topology_eval[OF n c ne] r
  have "chimera_topology props =
             (case find_stride L rest of
                Inl e \<Rightarrow> Inl e
              | Inr M \<Rightarrow>
                  (case py_floordiv (n + 2 * L * M - 1) (2 * L * M) of
                     Inl e \<Rightarrow> Inl e
                   | Inr N \<Rightarrow> Inr (L, M, N)))"
    by auto
  then show ?thesis
    using py_floordiv_ceiling[OF b, of n] by (simp add: f)
qed

lemma stride_columns_none:
  "\<forall>d \<in> fst ` set rest. d \<le> 2 * L \<Longrightarrow> stride_columns L rest = 1"
proof -
  assume a: "\<forall>d \<in> fst ` set rest. d \<le> 2 * L"
  have "find (\<lambda>d. d > 2 * L) (map fst rest) = None"
    using a by (auto simp: find_None_iff)
  then show ?thesis by (simp add: stride_columns_def)
qed

text \<open>
  C4 (as stated): for a non-empty coupler list the function fails only when the nominal qubit
  count is absent.  With the count present it also fails, by a division by zero, when the
  most frequent distance is 0: here \<open>L = 0\<close>, the distance 5 is greater than \<open>2 * L\<close>, and
  \<open>M = 5 // 0\<close>.
\<close>

theorem chimera_topology_fails_on_zero_distance:
  "chimera_topology \<lparr>num_qubits = Some 8, couplers = Some [(0, 0), (0, 0), (0, 5)]\<rparr>
     = Inl ZeroDivisionError"
  by (simp add: chimera_topology_def py_floordiv_def Let_def)

text \<open>
  C10 (as stated): a non-empty coupler list with no distance greater than \<open>2 * L\<close> gives
  \<open>M = 1\<close> and no failure.  For the single coupler \<open>(3, 3)\<close> the most frequent distance is
  \<open>L = 0\<close>, no distance is greater than 0, \<open>M\<close> stays 1, and the division by \<open>2 * L * M = 0\<close>
  that computes \<open>N\<close> fails.
\<close>

theorem no_stride_fails_on_zero_distance:
  "chimera_topology \<lparr>num_qubits = Some 8, couplers = Some [(3, 3)]\<rparr> = Inl ZeroDivisionError"
  by (simp add: chimera_topology_def py_floordiv_def Let_def)

text \<open>
  C4 (amended): without a nominal qubit count \<open>chimera_topology\<close> fails with \<open>NonChimera\<close>.
  With the count \<open>n\<close> and a non-empty coupler list, let \<open>L\<close> be the first of the distinct
  distances ordered by descending frequency: no distance is more frequent than \<open>L\<close>.  When
  \<open>L\<close> is not 0 the function returns \<open>(L, M, N)\<close> where \<open>M\<close> is \<open>d div (2 * L)\<close> for the first
  distance \<open>d > 2 * L\<close> among the remaining distances in that order (1 when there is none),
  and \<open>N\<close> is the ceiling of \<open>n / (2 * L * M)\<close>.
\<close>

theorem chimera_topology_spec:
  "(num_qubits props = None \<longrightarrow> chimera_topology props = Inl NonChimera)
   \<and> (num_qubits props = Some n \<and> couplers props = Some cs \<and> cs \<noteq> [] \<longrightarrow>
        (\<exists>L t rest.
           ranked_distances cs = (L, t) # rest
           \<and> L \<in> set (coupler_distances cs)
           \<and> (\<forall>d. count_list (coupler_distances cs) d \<le> count_list (coupler_distances cs) L)
           \<and> sorted (map (\<lambda>dt. - snd dt) (ranked_distances cs))
           \<and> (L \<noteq> 0 \<longrightarrow>
                chimera_topology props =
                  Inr (L, stride_columns L rest,
                       \<lceil>real_of_int n / real_of_int (2 * L * stride_columns L rest)\<rceil>))))"
proof -
  have a: "num_qubits props = None \<Longrightarrow> chimera_topology props = Inl NonChimera"
    by (simp add: chimera_topology_def)
  have b: "\<exists>L t rest.
           ranked_distances cs = (L, t) # rest
           \<and> L \<in> set (coupler_distances cs)
           \<and> (\<forall>d. count_list (coupler_distances cs) d \<le> count_list (coupler_distances cs) L)
           \<and> sorted (map (\<lambda>dt. - snd dt) (ranked_distances cs))
           \<and> (L \<noteq> 0 \<longrightarrow>
                chimera_topology props =
                  Inr (L, stride_columns L rest,
                       \<lceil>real_of_int n / real_of_int (2 * L * stride_columns L rest)\<rceil>))"
    if h: "num_qubits props = Some n" "couplers props = Some cs" "cs \<noteq> []"
  proof -
    from chimera_topology_eval[OF h] obtain L t rest where
      r: "ranked_distances cs = (L, t) # rest" by blast
    show ?thesis
      using r ranked_head(1)[OF r] ranked_head(3)[OF r] ranked_sorted[of cs]
        chimera_topology_pos[OF h r]
      by blast
  qed
  show ?thesis using a b by blast
qed

text \<open>
  C10 (amended): with the nominal qubit count \<open>n\<close> present, a non-empty coupler list whose
  most frequent distance \<open>L\<close> is not 0 and none of whose distances is greater than \<open>2 * L\<close>
  gives \<open>(L, 1, N)\<close> with \<open>N\<close> the ceiling of \<open>n / (2 * L)\<close>: \<open>M = 1\<close>, and no failure.
\<close>

theorem no_stride_gives_one_column:
  assumes "num_qubits props = Some n" and "couplers props = Some cs" and "cs \<noteq> []"
    and "ranked_distances cs = (L, t) # rest"
    and "L \<noteq> 0"
    and "\<forall>d \<in> set (coupler_distances cs). d \<le> 2 * L"
  shows "chimera_topology props = Inr (L, 1, \<lceil>real_of_int n / real_of_int (2 * L)\<rceil>)"
proof -
  have "fst ` set rest \<subseteq> set (coupler_distances cs)"
    using ranked_set[of cs] assms(4) by (auto simp: image_iff) 
  with assms(6) have "\<forall>d \<in> fst ` set rest. d \<le> 2 * L" by blast
  then have "stride_columns L rest = 1" by (rule stride_columns_none)
  with chimera_topology_pos[OF assms(1-5)] show ?thesis by simp
qed


theorem chimera_topology_spec_witness:
  "num_qubits \<lparr>num_qubits = Some 8,
               couplers = Some [(0, 1), (2, 3), (4, 5), (6, 7), (0, 4), (2, 6)]\<rparr> = Some 8
   \<and> ranked_distances [(0, 1), (2, 3), (4, 5), (6, 7), (0, 4), (2, 6)] = [(1, 4), (4, 2)]
   \<and> chimera_topology \<lparr>num_qubits = Some 8,
                        couplers = Some [(0, 1), (2, 3), (4, 5), (6, 7), (0, 4), (2, 6)]\<rparr>
       = Inr (1, 2, 2)
   \<and> chimera_topology \<lparr>num_qubits = None, couplers = Some [(0, 1)]\<rparr> = Inl NonChimera"
proof -
  have r: "ranked_distances [(0, 1), (2, 3), (4, 5), (6, 7), (0, 4), (2, 6)] = [(1, 4), (4, 2)]"
    by (simp add: ranked_distances_def coupler_distances_def)
  have m: "stride_columns 1 [(4, 2)] = 2"
    by (simp add: stride_columns_def)
  show ?thesis
    using r m
      chimera_topology_spec
        [of "\<lparr>num_qubits = Some 8,
              couplers = Some [(0, 1), (2, 3), (4, 5), (6, 7), (0, 4), (2, 6)]\<rparr>"
            8 "[(0, 1), (2, 3), (4, 5), (6, 7), (0, 4), (2, 6)]"]
      chimera_topology_spec [of "\<lparr>num_qubits = None, couplers = Some [(0, 1)]\<rparr>" 0 "[]"]
    by auto
qed

theorem no_stride_gives_one_column_witness:
  "ranked_distances [(0, 4), (1, 5), (2, 6), (0, 5)] = [(4, 3), (5, 1)]
   \<and> (4::int) \<noteq> 0
   \<and> coupler_distances [(0, 4), (1, 5), (2, 6), (0, 5)] = [4, 4, 4, 5]
   \<and> (5::int) \<le> 2 * 4
   \<and> chimera_topology \<lparr>num_qubits = Some 8, couplers = Some [(0, 4), (1, 5), (2, 6), (0, 5)]\<rparr>
       = Inr (4, 1, 1)"
proof -
  have r: "ranked_distances [(0, 4), (1, 5), (2, 6), (0, 5)] = [(4, 3), (5, 1)]"
    by (simp add: ranked_distances_def coupler_distances_def)
  have d: "\<forall>d \<in> set (coupler_distances [(0, 4), (1, 5), (2, 6), (0, 5)]). d \<le> 2 * 4"
    by (simp add: coupler_distances_def)
  have e: "coupler_distances [(0, 4), (1, 5), (2, 6), (0, 5)] = [4, 4, 4, 5]"
    by (simp add: coupler_distances_def)
  show ?thesis
    using r d e
      no_stride_gives_one_column
        [of "\<lparr>num_qubits = Some 8, couplers = Some [(0, 4), (1, 5), (2, 6), (0, 5)]\<rparr>"
            8 "[(0, 4), (1, 5), (2, 6), (0, 5)]" 4 3 "[(5, 1)]"]
    by simp
qed

section \<open>Embeddability: proofs\<close>

lemma set_update_eq:
  "distinct (map fst al) \<Longrightarrow>
   set (AList.update k v al) = insert (k, v) {p \<in> set al. fst p \<noteq> k}"
  by (induction al) (auto simp: image_iff)

lemma add_neighbor_keys: "fst ` set (add_neighbor n1 n2 nodes) = insert n1 (fst ` set nodes)"
  by (auto simp: add_neighbor_def dom_update split: option.splits)

lemma add_neighbor_peers:
  "peers_of (add_neighbor n1 n2 nodes) v
     = (if v = n1 then insert n2 (peers_of nodes v) else peers_of nodes v)"
  by (auto simp: add_neighbor_def peers_of_def update_conv' py_set_add_def split: option.splits)

lemma add_neighbor_wf: "wf_nodes nodes \<Longrightarrow> wf_nodes (add_neighbor n1 n2 nodes)"
proof -
  assume w: "wf_nodes nodes"
  then have d: "distinct (map fst nodes)" by (simp add: wf_nodes_def)
  show ?thesis
  proof (cases "map_of nodes n1")
    case None
    then show ?thesis using w d
      by (auto simp: add_neighbor_def wf_nodes_def distinct_update set_update_eq)
  next
    case (Some ps)
    then have "(n1, ps) \<in> set nodes" by (rule map_of_SomeD)
    with w have "distinct ps" by (auto simp: wf_nodes_def)
    then have "distinct (py_set_add n2 ps)" by (simp add: py_set_add_def)
    then show ?thesis using w d Some
      by (auto simp: add_neighbor_def wf_nodes_def distinct_update set_update_eq)
  qed
qed

lemma fold_neighbors:
  "wf_nodes acc \<Longrightarrow>
   wf_nodes (fold (\<lambda>(n1, n2) nodes. add_neighbor n2 n1 (add_neighbor n1 n2 nodes)) es acc)
   \<and> fst ` set (fold (\<lambda>(n1, n2) nodes. add_neighbor n2 n1 (add_neighbor n1 n2 nodes)) es acc)
        = fst ` set acc \<union> graph_nodes es
   \<and> (\<forall>v. peers_of (fold (\<lambda>(n1, n2) nodes. add_neighbor n2 n1 (add_neighbor n1 n2 nodes)) es acc) v
        = peers_of acc v \<union> graph_neighbors es v)"
proof (induction es arbitrary: acc)
  case Nil
  then show ?case by (simp add: graph_nodes_def graph_neighbors_def)
next
  case (Cons e es)
  obtain n1 n2 where e: "e = (n1, n2)" by (cases e)
  let ?acc' = "add_neighbor n2 n1 (add_neighbor n1 n2 acc)"
  have w: "wf_nodes ?acc'" using Cons.prems by (simp add: add_neighbor_wf)
  have k: "fst ` set ?acc' = insert n2 (insert n1 (fst ` set acc))"
    by (simp add: add_neighbor_keys)
  have p: "peers_of ?acc' v = peers_of acc v \<union> graph_neighbors [e] v" for v
    by (auto simp: add_neighbor_peers graph_neighbors_def e)
  have gn: "graph_nodes (e # es) = insert n2 (insert n1 (graph_nodes es))"
    by (auto simp: graph_nodes_def e)
  have gb: "graph_neighbors (e # es) v = graph_neighbors [e] v \<union> graph_neighbors es v" for v
    by (auto simp: graph_neighbors_def)
  from Cons.IH[OF w] show ?case
    by (simp add: e[symmetric] k p gn gb Un_assoc) (auto simp: e)
qed

lemma neighbor_list_props:
  "wf_nodes (edges_to_neighbor_list es)"
  "fst ` set (edges_to_neighbor_list es) = graph_nodes es"
  "peers_of (edges_to_neighbor_list es) v = graph_neighbors es v"
  using fold_neighbors[of "[]" es]
  by (simp_all add: edges_to_neighbor_list_def wf_nodes_def peers_of_def)


lemma neighbor_list_length: "int (length (edges_to_neighbor_list es)) = int (card (graph_nodes es))"
proof -
  have "distinct (map fst (edges_to_neighbor_list es))"
    using neighbor_list_props(1)[of es] by (simp add: wf_nodes_def)
  then have "card (set (map fst (edges_to_neighbor_list es))) = length (edges_to_neighbor_list es)"
    using distinct_card by fastforce
  then show ?thesis using neighbor_list_props(2)[of es] by simp
qed

lemma neighbor_list_degree:
  assumes "(n, ps) \<in> set (edges_to_neighbor_list es)"
  shows "int (length ps) = graph_degree es n"
proof -
  have w: "wf_nodes (edges_to_neighbor_list es)" by (rule neighbor_list_props(1))
  then have "map_of (edges_to_neighbor_list es) n = Some ps"
    using assms by (simp add: wf_nodes_def)
  then have "set ps = graph_neighbors es n"
    using neighbor_list_props(3)[of es n] by (simp add: peers_of_def)
  moreover have "distinct ps" using w assms by (auto simp: wf_nodes_def)
  ultimately have "card (graph_neighbors es n) = length ps"
    by (metis distinct_card)
  then show ?thesis by (simp add: graph_degree_def)
qed

lemma neighbor_list_degrees:
  "map (\<lambda>(n, peers). int (length peers)) (edges_to_neighbor_list es)
     = map (graph_degree es) (map fst (edges_to_neighbor_list es))"
  by (auto simp: neighbor_list_degree)

lemma max_degree_avail:
  assumes "adj \<noteq> []"
  shows "py_max (map (\<lambda>(n, peers). int (length peers)) (edges_to_neighbor_list adj))
           = Inr (max_degree adj)"
proof -
  let ?ks = "map fst (edges_to_neighbor_list adj)"
  have "graph_nodes adj \<noteq> {}" using assms by (cases adj) (auto simp: graph_nodes_def)
  then have "set ?ks \<noteq> {}" using neighbor_list_props(2)[of adj] by simp
  then obtain k ks where ks: "?ks = k # ks" by (cases ?ks) auto
  have "py_max (map (graph_degree adj) ?ks) = Inr (Max (set (map (graph_degree adj) ?ks)))"
    using Max.set_eq_fold[of "graph_degree adj k" "map (graph_degree adj) ks"]
    by (simp add: ks)
  moreover have "set (map (graph_degree adj) ?ks) = graph_degree adj ` graph_nodes adj"
    using neighbor_list_props(2)[of adj] by (simp add: image_image[symmetric])
  ultimately show ?thesis by (simp add: neighbor_list_degrees max_degree_def)
qed

lemma fold_add_sum_list:
  "fold (\<lambda>x (acc::int). if P x then acc + h x else acc) xs a
     = a + sum_list (map (\<lambda>x. if P x then h x else 0) xs)"
  by (induction xs arbitrary: a) simp_all

lemma count_extras_sum:
  "count_extras m (edges_to_neighbor_list es)
     = (\<Sum>v \<in> graph_nodes es.
          if graph_degree es v > m
          then \<lceil>real_of_int (graph_degree es v) / real_of_int m\<rceil> - 1 else 0)"
proof -
  let ?g = "edges_to_neighbor_list es"
  let ?F = "\<lambda>v. if graph_degree es v > m
                 then \<lceil>real_of_int (graph_degree es v) / real_of_int m\<rceil> - 1 else 0"
  have step: "(\<lambda>(n, peers) extras.
             let deg = int (length peers)
             in if deg > m
                then extras + (\<lceil>real_of_int deg / real_of_int m\<rceil> - 1)
                else extras)
        = (\<lambda>x (acc::int). if int (length (snd x)) > m
             then acc + (\<lceil>real_of_int (int (length (snd x))) / real_of_int m\<rceil> - 1) else acc)"
    by (auto simp: fun_eq_iff Let_def)
  have "count_extras m ?g
          = sum_list (map (\<lambda>x. if int (length (snd x)) > m
               then \<lceil>real_of_int (int (length (snd x))) / real_of_int m\<rceil> - 1 else 0) ?g)"
    unfolding count_extras_def step by (simp add: fold_add_sum_list)
  also have "\<dots> = sum_list (map (?F \<circ> fst) ?g)"
  proof -
    have deg: "int (length (snd x)) = graph_degree es (fst x)" if "x \<in> set ?g" for x
      using neighbor_list_degree[of "fst x" "snd x" es] that by simp
    have "map (\<lambda>x. if int (length (snd x)) > m
               then \<lceil>real_of_int (int (length (snd x))) / real_of_int m\<rceil> - 1 else 0) ?g
            = map (?F \<circ> fst) ?g"
      by (rule map_cong, simp, simp only: deg comp_def)
    then show ?thesis by (rule arg_cong)
  qed
  also have "\<dots> = sum_list (map ?F (map fst ?g))" by simp
  also have "\<dots> = sum ?F (set (map fst ?g))"
    using neighbor_list_props(1)[of es]
    by (intro sum_list_distinct_conv_sum_set) (simp add: wf_nodes_def)
  also have "\<dots> = sum ?F (graph_nodes es)"
    using neighbor_list_props(2)[of es] by simp
  finally show ?thesis .
qed

lemma extras_same_graph: "extras_needed es es = 0"
proof -
  have "finite (graph_nodes es)" by (simp add: graph_nodes_def)
  then have "graph_degree es v \<le> max_degree es" if "v \<in> graph_nodes es" for v
    using that by (simp add: max_degree_def)
  then have "\<forall>v \<in> graph_nodes es.
      (if graph_degree es v > max_degree es
       then \<lceil>real_of_int (graph_degree es v) / real_of_int (max_degree es)\<rceil> - 1
       else 0) = 0"
    by (simp add: not_less[symmetric])
  then show ?thesis unfolding extras_needed_def by (rule sum.neutral)
qed

text \<open>
  C9 (as stated): on a logical edge list identical to the hardware edge list the analyzer
  reports \<open>embeddable = true\<close> and \<open>extras = 0\<close>, and for any two edge lists it reports a
  result.  With an empty hardware edge list there is no hardware node, and the maximum of the
  empty list of degrees raises \<open>ValueError\<close>; so it does on two empty (identical) lists.
\<close>

theorem maybe_embeddable_empty_hardware: "maybe_embeddable [] [] = Inl ValueError"
  by (simp add: maybe_embeddable_def edges_to_neighbor_list_def)

text \<open>
  C9 (amended): for a non-empty hardware edge list, \<open>maybe_embeddable\<close> returns a report in
  which \<open>extras\<close> is the sum, over exactly the logical nodes whose degree exceeds the maximum
  hardware degree, of \<open>ceil(degree / maximum hardware degree) - 1\<close>; the needed and available
  nodes are the numbers of nodes of the two graphs, the needed and available edges the lengths
  of the two edge lists; and \<open>embeddable\<close> is false if and only if needed nodes plus extras
  exceed the available nodes or needed edges plus extras exceed the available edges.  On a
  logical edge list identical to the (non-empty) hardware edge list it reports
  \<open>embeddable = true\<close> and \<open>extras = 0\<close>.
\<close>

theorem maybe_embeddable_spec:
  assumes "adj \<noteq> []"
  shows "maybe_embeddable edges adj =
           Inr (\<not> (int (card (graph_nodes edges)) + extras_needed edges adj
                      > int (card (graph_nodes adj))
                    \<or> int (length edges) + extras_needed edges adj > int (length adj)),
                extras_needed edges adj,
                (int (card (graph_nodes edges)), int (card (graph_nodes adj))),
                (int (length edges), int (length adj)),
                sort_key fst (degree_hist (edges_to_neighbor_list edges)))
         \<and> fst (projr (maybe_embeddable adj adj)) = True
         \<and> fst (snd (projr (maybe_embeddable adj adj))) = 0"
proof -
  have gen: "maybe_embeddable es adj =
           Inr (\<not> (int (card (graph_nodes es)) + extras_needed es adj
                      > int (card (graph_nodes adj))
                    \<or> int (length es) + extras_needed es adj > int (length adj)),
                extras_needed es adj,
                (int (card (graph_nodes es)), int (card (graph_nodes adj))),
                (int (length es), int (length adj)),
                sort_key fst (degree_hist (edges_to_neighbor_list es)))" for es
    using max_degree_avail[OF assms]
    by (simp add: maybe_embeddable_def Let_def count_extras_sum extras_needed_def
        neighbor_list_length del: of_nat_add)
  show ?thesis
    by (simp add: gen extras_same_graph)
qed

theorem maybe_embeddable_spec_witness:
  "[(0, 1), (1, 2), (2, 0)] \<noteq> ([] :: (int \<times> int) list)
   \<and> maybe_embeddable [(0, 1), (1, 2), (2, 0)] [(0, 1), (1, 2), (2, 0)]
       = Inr (True, 0, (3, 3), (3, 3), [(2, 3)])
   \<and> fst (projr (maybe_embeddable [(0, 1), (1, 2), (2, 0)] [(0, 1), (1, 2), (2, 0)])) = True
   \<and> fst (snd (projr (maybe_embeddable [(0, 1), (1, 2), (2, 0)] [(0, 1), (1, 2), (2, 0)]))) = 0"
proof -
  have e: "maybe_embeddable [(0, 1), (1, 2), (2, 0)] [(0, 1), (1, 2), (2, 0)]
       = Inr (True, 0, (3, 3), (3, 3), [(2, 3)])"
    by code_simp
  show ?thesis
    using e maybe_embeddable_spec[of "[(0, 1), (1, 2), (2, 0)]" "[(0, 1), (1, 2), (2, 0)]"]
    by simp
qed

section \<open>The symbol table: aliasing is transitive\<close>

lemma inner_regenerate:
  "map_of (fold (\<lambda>s m'. AList.update s n m') ss m) x
     = (if x \<in> set ss then Some n else map_of m x)"
  by (induction ss arbitrary: m) (auto simp: update_conv')

lemma fold_regenerate:
  assumes "\<forall>(n', ss') \<in> set n2s. x \<in> set ss' \<longrightarrow> n' = n"
  shows "map_of (fold (\<lambda>(n, ss) m. fold (\<lambda>s m'. AList.update s n m') ss m) n2s m) x
           = (if \<exists>ss. (n, ss) \<in> set n2s \<and> x \<in> set ss then Some n else map_of m x)"
  using assms
proof (induction n2s arbitrary: m)
  case Nil
  then show ?case by simp
next
  case (Cons a n2s)
  obtain k ss where a: "a = (k, ss)" by (cases a)
  from Cons.prems have rest: "\<forall>(n', ss') \<in> set n2s. x \<in> set ss' \<longrightarrow> n' = n" by simp
  show ?case
  proof (cases "x \<in> set ss")
    case True
    with Cons.prems have "k = n" by (simp add: a)
    with True show ?thesis
      using Cons.IH[OF rest] by (auto simp: a inner_regenerate)
  next
    case False
    then show ?thesis
      using Cons.IH[OF rest] by (auto simp: a inner_regenerate)
  qed
qed

lemma regenerate_lookup:
  assumes d: "distinct (map fst n2s)"
    and disj: "\<forall>n ss n' ss'. map_of n2s n = Some ss \<and> map_of n2s n' = Some ss'
                 \<and> set ss \<inter> set ss' \<noteq> {} \<longrightarrow> n = n'"
  shows "map_of (regenerate_sym2num n2s) x = Some n
           \<longleftrightarrow> (\<exists>ss. map_of n2s n = Some ss \<and> x \<in> set ss)"
proof (cases "\<exists>k ss. (k, ss) \<in> set n2s \<and> x \<in> set ss")
  case True
  then obtain k ss where k: "(k, ss) \<in> set n2s" "x \<in> set ss" by blast
  then have mk: "map_of n2s k = Some ss" using d by simp
  have all: "\<forall>(n', ss') \<in> set n2s. x \<in> set ss' \<longrightarrow> n' = k"
  proof (clarify)
    fix n' ss' assume h: "(n', ss') \<in> set n2s" "x \<in> set ss'"
    then have "map_of n2s n' = Some ss'" using d by simp
    with mk k(2) h(2) disj show "n' = k" by blast
  qed
  have "map_of (regenerate_sym2num n2s) x = Some k"
    unfolding regenerate_sym2num_def using fold_regenerate[OF all, of "[]"] k by auto
  moreover have "(\<exists>ss. map_of n2s n = Some ss \<and> x \<in> set ss) \<longleftrightarrow> n = k"
    using mk k(2) disj by (metis disjoint_iff)
  ultimately show ?thesis by auto
next
  case False
  then have all: "\<forall>(n', ss') \<in> set n2s. x \<in> set ss' \<longrightarrow> n' = n" by blast
  have "map_of (regenerate_sym2num n2s) x = None"
    unfolding regenerate_sym2num_def using fold_regenerate[OF all, of "[]"] False by auto
  moreover have "\<not> (\<exists>ss. map_of n2s n = Some ss \<and> x \<in> set ss)"
    using False by (meson map_of_SomeD)
  ultimately show ?thesis by simp
qed


lemma invD1: "table_inv t \<Longrightarrow> distinct (map fst (num2syms t))"
  unfolding table_inv_def by blast

lemma invD2: "table_inv t \<Longrightarrow>
  (map_of (sym2num t) s = Some n) = (\<exists>ss. map_of (num2syms t) n = Some ss \<and> s \<in> set ss)"
  unfolding table_inv_def by blast

lemma invD3: "table_inv t \<Longrightarrow> n \<in> fst ` set (num2syms t) \<Longrightarrow> n < next_sym_num t"
  unfolding table_inv_def by blast

lemma inv_lt: "table_inv t \<Longrightarrow> map_of (sym2num t) x = Some m \<Longrightarrow> m < next_sym_num t"
proof -
  assume i: "table_inv t" and f: "map_of (sym2num t) x = Some m"
  then obtain ss where "map_of (num2syms t) m = Some ss" using invD2 by blast
  then have "m \<in> fst ` set (num2syms t)" by (metis map_of_eq_None_iff option.distinct(1))
  with i show ?thesis by (rule invD3)
qed

lemma inv_rev: "table_inv t \<Longrightarrow> map_of (sym2num t) x = Some m \<Longrightarrow>
  \<exists>ss. map_of (num2syms t) m = Some ss \<and> x \<in> set ss"
  using invD2 by blast

lemma new_symbol_ok:
  assumes i: "table_inv t" and u: "map_of (sym2num t) s = None"
  shows "\<exists>t'. new_symbol t s = (Inr (next_sym_num t), t')
           \<and> table_inv t'
           \<and> map_of (sym2num t') = (map_of (sym2num t))(s \<mapsto> next_sym_num t)
           \<and> map_of (num2syms t') = (map_of (num2syms t))(next_sym_num t \<mapsto> [s])
           \<and> next_sym_num t' = next_sym_num t + 1"
proof -
  let ?n = "next_sym_num t"
  let ?t' = "t\<lparr>sym2num := AList.update s ?n (sym2num t),
               num2syms := AList.update ?n [s] (num2syms t),
               next_sym_num := ?n + 1\<rparr>"
  from u have notin: "s \<notin> fst ` set (sym2num t)" by (simp add: map_of_eq_None_iff)
  then have r: "new_symbol t s = (Inr ?n, ?t')" by (simp add: new_symbol_def)
  have fresh: "?n \<notin> fst ` set (num2syms t)" using invD3[OF i, of ?n] by auto
  then have rn: "map_of (num2syms t) ?n = None" by (simp add: map_of_eq_None_iff)
  have F: "map_of (sym2num ?t') = (map_of (sym2num t))(s \<mapsto> ?n)" by (simp add: update_conv')
  have R: "map_of (num2syms ?t') = (map_of (num2syms t))(?n \<mapsto> [s])" by (simp add: update_conv')
  have d: "distinct (map fst (num2syms ?t'))" using invD1[OF i] by (simp add: distinct_update)
  have k: "\<forall>n \<in> fst ` set (num2syms ?t'). n < next_sym_num ?t'"
  proof
    fix n assume "n \<in> fst ` set (num2syms ?t')"
    then have "n = ?n \<or> n \<in> fst ` set (num2syms t)" by (auto simp: dom_update)
    then have "n \<le> ?n" using invD3[OF i, of n] by fastforce
    then show "n < next_sym_num ?t'" by simp
  qed
  have c: "map_of (sym2num ?t') x = Some n
             \<longleftrightarrow> (\<exists>ss. map_of (num2syms ?t') n = Some ss \<and> x \<in> set ss)" for x n
  proof (cases "x = s")
    case True
    have "\<not> (\<exists>ss. map_of (num2syms t) n = Some ss \<and> s \<in> set ss)"
      using invD2[OF i, of s n] u by simp
    then show ?thesis using True rn by (auto simp: update_conv')
  next
    case False
    have "map_of (sym2num t) x = Some n \<Longrightarrow> n \<noteq> ?n" using inv_lt[OF i] by fastforce
    moreover have "map_of (sym2num t) x = Some n
             \<longleftrightarrow> (\<exists>ss. map_of (num2syms t) n = Some ss \<and> x \<in> set ss)"
      using i by (rule invD2)
    ultimately show ?thesis using False rn by (auto simp: update_conv')
  qed
  have "table_inv ?t'" unfolding table_inv_def using d k c by blast
  then show ?thesis using r F R by (intro exI[of _ ?t']) simp
qed

lemma alias_ensure_ok:
  assumes i: "table_inv t"
  shows "\<exists>n d t'. alias_ensure t s = (Inr (n, d), t')
           \<and> table_inv t'
           \<and> map_of (sym2num t') s = Some n
           \<and> (\<forall>x m. map_of (sym2num t) x = Some m \<longrightarrow> map_of (sym2num t') x = Some m)
           \<and> ((d = 0 \<and> t' = t)
               \<or> (d = 1 \<and> map_of (sym2num t) s = None \<and> n = next_sym_num t
                   \<and> map_of (sym2num t') = (map_of (sym2num t))(s \<mapsto> n)
                   \<and> map_of (num2syms t') = (map_of (num2syms t))(n \<mapsto> [s])
                   \<and> next_sym_num t' = next_sym_num t + 1))"
proof (cases "map_of (sym2num t) s")
  case None
  from new_symbol_ok[OF i None] obtain t' where
    t': "new_symbol t s = (Inr (next_sym_num t), t')" "table_inv t'"
      "map_of (sym2num t') = (map_of (sym2num t))(s \<mapsto> next_sym_num t)"
      "map_of (num2syms t') = (map_of (num2syms t))(next_sym_num t \<mapsto> [s])"
      "next_sym_num t' = next_sym_num t + 1"
    by blast
  have "alias_ensure t s = (Inr (next_sym_num t, 1), t')"
    by (simp add: alias_ensure_def None t'(1))
  moreover have "\<forall>x m. map_of (sym2num t) x = Some m \<longrightarrow> map_of (sym2num t') x = Some m"
    using None by (auto simp: t'(3))
  ultimately show ?thesis using t' None by auto
next
  case (Some n)
  then have "alias_ensure t s = (Inr (n, 0), t)" by (simp add: alias_ensure_def)
  then show ?thesis using i Some by auto
qed


lemma set_py_set_update: "set (py_set_update xs other) = set xs \<union> set other"
proof -
  have "set (fold py_set_add other xs) = set xs \<union> set other"
    by (induction other arbitrary: xs) (auto simp: py_set_add_def)
  then show ?thesis by (simp add: py_set_update_def)
qed

lemma option_eq_by_Some: "(\<And>n. (a = Some n) = (b = Some n)) \<Longrightarrow> a = b"
  by (cases a; cases b) auto

lemma merge_ok:
  assumes i: "table_inv s2"
    and rn: "map_of (num2syms s2) nw = Some nss"
    and ro: "map_of (num2syms s2) od = Some oss"
    and ne: "nw \<noteq> od"
    and n2s: "n2s = AList.delete od (AList.update nw (py_set_update nss oss) (num2syms s2))"
    and t': "t' = s2\<lparr>sym2num := regenerate_sym2num n2s, num2syms := n2s\<rparr>"
  shows "table_inv t'"
    and "map_of (sym2num t') x
           = (if map_of (sym2num s2) x = Some od then Some nw else map_of (sym2num s2) x)"
proof -
  let ?F = "map_of (sym2num s2)"
  let ?R = "map_of (num2syms s2)"
  have M: "map_of n2s = (?R(nw \<mapsto> py_set_update nss oss))(od := None)"
    by (simp add: n2s delete_conv' update_conv')
  have d: "distinct (map fst n2s)"
    using invD1[OF i] by (simp add: n2s distinct_delete distinct_update)
  have G: "(\<exists>ss. map_of n2s n = Some ss \<and> y \<in> set ss)
             \<longleftrightarrow> (if ?F y = Some od then Some nw else ?F y) = Some n" for n y
  proof -
    have Fn: "?F y = Some nw \<longleftrightarrow> y \<in> set nss" using invD2[OF i, of y nw] rn by simp
    have Fo: "?F y = Some od \<longleftrightarrow> y \<in> set oss" using invD2[OF i, of y od] ro by simp
    consider "n = od" | "n = nw" | "n \<noteq> od" "n \<noteq> nw" by blast
    then show ?thesis
    proof cases
      case 1
      then show ?thesis using ne by (auto simp: M)
    next
      case 2
      then show ?thesis using ne Fn Fo by (auto simp: M set_py_set_update)
    next
      case 3
      then show ?thesis using invD2[OF i, of y n] by (auto simp: M)
    qed
  qed
  have disj: "\<forall>n ss n' ss'. map_of n2s n = Some ss \<and> map_of n2s n' = Some ss'
                 \<and> set ss \<inter> set ss' \<noteq> {} \<longrightarrow> n = n'"
  proof (intro allI impI)
    fix n ss n' ss'
    assume h: "map_of n2s n = Some ss \<and> map_of n2s n' = Some ss' \<and> set ss \<inter> set ss' \<noteq> {}"
    then obtain y where y: "y \<in> set ss" "y \<in> set ss'" by blast
    have "(if ?F y = Some od then Some nw else ?F y) = Some n" using G[of n y] h y by blast
    moreover have "(if ?F y = Some od then Some nw else ?F y) = Some n'"
      using G[of n' y] h y by blast
    ultimately show "n = n'" by simp
  qed
  have L: "map_of (regenerate_sym2num n2s) y = Some n
             \<longleftrightarrow> (\<exists>ss. map_of n2s n = Some ss \<and> y \<in> set ss)" for y n
    by (rule regenerate_lookup[OF d disj])
  have k: "n \<in> fst ` set (num2syms t') \<Longrightarrow> n < next_sym_num t'" for n
  proof -
    assume "n \<in> fst ` set (num2syms t')"
    then have "n \<in> fst ` set (AList.update nw (py_set_update nss oss) (num2syms s2))"
      using dom_delete_subset[of od] by (auto simp: t' n2s)
    moreover have "nw \<in> fst ` set (num2syms s2)"
      using rn by (metis map_of_eq_None_iff option.distinct(1))
    ultimately have "n \<in> fst ` set (num2syms s2)" by (auto simp: dom_update)
    then show ?thesis using invD3[OF i] by (simp add: t')
  qed
  show "table_inv t'"
    unfolding table_inv_def using d L k by (simp add: t')
  show "map_of (sym2num t') x
           = (if map_of (sym2num s2) x = Some od then Some nw else map_of (sym2num s2) x)"
    by (rule option_eq_by_Some) (simp add: t' L G)
qed


lemma alias_ok:
  assumes i: "table_inv t" and r: "SymbolMapping_alias t a b = (Inr n, t')"
  shows "table_inv t'"
    and "map_of (sym2num t') a = Some n"
    and "map_of (sym2num t') b = Some n"
    and "map_of (sym2num t) x = Some m \<Longrightarrow> map_of (sym2num t') x = Some m"
proof -
  from alias_ensure_ok[OF i, of a] obtain n1 d1 s1 where
    e1: "alias_ensure t a = (Inr (n1, d1), s1)" and i1: "table_inv s1"
    and f1: "map_of (sym2num s1) a = Some n1"
    and p1: "\<forall>x m. map_of (sym2num t) x = Some m \<longrightarrow> map_of (sym2num s1) x = Some m"
    and c1: "(d1 = 0 \<and> s1 = t)
               \<or> (d1 = 1 \<and> map_of (sym2num t) a = None \<and> n1 = next_sym_num t
                   \<and> map_of (sym2num s1) = (map_of (sym2num t))(a \<mapsto> n1)
                   \<and> map_of (num2syms s1) = (map_of (num2syms t))(n1 \<mapsto> [a])
                   \<and> next_sym_num s1 = next_sym_num t + 1)"
    by blast
  from alias_ensure_ok[OF i1, of b] obtain n2 d2 s2 where
    e2: "alias_ensure s1 b = (Inr (n2, d2), s2)" and i2: "table_inv s2"
    and f2: "map_of (sym2num s2) b = Some n2"
    and p2: "\<forall>x m. map_of (sym2num s1) x = Some m \<longrightarrow> map_of (sym2num s2) x = Some m"
    and c2: "(d2 = 0 \<and> s2 = s1)
               \<or> (d2 = 1 \<and> map_of (sym2num s1) b = None \<and> n2 = next_sym_num s1
                   \<and> map_of (sym2num s2) = (map_of (sym2num s1))(b \<mapsto> n2)
                   \<and> map_of (num2syms s2) = (map_of (num2syms s1))(n2 \<mapsto> [b])
                   \<and> next_sym_num s2 = next_sym_num s1 + 1)"
    by blast
  have fa: "map_of (sym2num s2) a = Some n1" using f1 p2 by blast
  have pres: "map_of (sym2num t) y = Some k \<Longrightarrow> map_of (sym2num s2) y = Some k" for y k
    using p1 p2 by blast
  have "table_inv t' \<and> map_of (sym2num t') a = Some n \<and> map_of (sym2num t') b = Some n
          \<and> (map_of (sym2num t) x = Some m \<longrightarrow> map_of (sym2num t') x = Some m)"
  proof (cases "n1 = n2")
    case True
    then have "SymbolMapping_alias t a b = (Inr n1, s2)"
      by (simp add: SymbolMapping_alias_def e1 e2)
    with r have "n = n1" "t' = s2" by simp_all
    then show ?thesis using i2 fa f2 True pres by simp
  next
    case False
    have dd: "d1 + d2 \<noteq> 0"
    proof
      assume "d1 + d2 = 0"
      then have "\<exists>e. SymbolMapping_alias t a b = (Inl e, s2)"
        using False by (simp add: SymbolMapping_alias_def e1 e2)
      with r show False by auto
    qed
    let ?nw = "min n1 n2" and ?od = "max n1 n2"
    have ne: "?nw \<noteq> ?od" using False by auto
    from inv_rev[OF i2 fa] obtain ss1 where ss1: "map_of (num2syms s2) n1 = Some ss1" by blast
    from inv_rev[OF i2 f2] obtain ss2 where ss2: "map_of (num2syms s2) n2 = Some ss2" by blast
    obtain nss where rn: "map_of (num2syms s2) ?nw = Some nss"
      using ss1 ss2 by (cases "n1 \<le> n2") (auto simp: min_def)
    obtain oss where ro: "map_of (num2syms s2) ?od = Some oss"
      using ss1 ss2 by (cases "n1 \<le> n2") (auto simp: max_def)
    let ?n2s = "AList.delete ?od (AList.update ?nw (py_set_update nss oss) (num2syms s2))"
    let ?t' = "s2\<lparr>sym2num := regenerate_sym2num ?n2s, num2syms := ?n2s\<rparr>"
    have eq: "SymbolMapping_alias t a b = (Inr ?nw, ?t')"
      using False dd rn ro by (simp add: SymbolMapping_alias_def e1 e2 Let_def)
    have n: "n = ?nw" using r eq by (metis prod.inject sum.inject(2))
    have t': "t' = ?t'" using r eq by (metis prod.inject)
    note mk = merge_ok[OF i2 rn ro ne refl t']
    have both: "n1 = ?nw \<or> n1 = ?od" "n2 = ?nw \<or> n2 = ?od" by auto
    have a': "map_of (sym2num t') a = Some n"
      using mk(2)[of a] fa both(1) by (auto simp: n)
    have b': "map_of (sym2num t') b = Some n"
      using mk(2)[of b] f2 both(2) by (auto simp: n)
    have keep: "map_of (sym2num t') x = Some m" if h: "map_of (sym2num t) x = Some m"
    proof -
      have lt: "m < next_sym_num t" using inv_lt[OF i h] .
      have "m \<noteq> ?od"
      proof (cases "d2 = 1")
        case True
        with c2 have n2: "n2 = next_sym_num s1" by auto
        have "n1 < next_sym_num s1" using inv_lt[OF i1 f1] .
        moreover have "next_sym_num t \<le> next_sym_num s1" using c1 by auto
        ultimately show ?thesis using lt n2 by auto
      next
        case False
        with c2 have s: "s2 = s1" and d2: "d2 = 0" by auto
        with dd c1 have d1: "n1 = next_sym_num t"
          and F1: "map_of (sym2num s1) = (map_of (sym2num t))(a \<mapsto> n1)" by auto
        have "b \<noteq> a" using f2 fa \<open>n1 \<noteq> n2\<close> by auto
        then have "map_of (sym2num t) b = Some n2" using f2 s F1 by simp
        then have "n2 < next_sym_num t" using inv_lt[OF i] by blast
        then show ?thesis using lt d1 by auto
      qed
      then show ?thesis using mk(2)[of x] pres[OF h] by simp
    qed
    show ?thesis using mk(1) a' b' keep by blast
  qed
  then show "table_inv t'" and "map_of (sym2num t') a = Some n"
    and "map_of (sym2num t') b = Some n"
    and "map_of (sym2num t) x = Some m \<Longrightarrow> map_of (sym2num t') x = Some m"
    by blast+
qed


lemma init_inv: "table_inv init_SymbolMapping"
  by (simp add: table_inv_def init_SymbolMapping_def)

lemma apply_sym_op_ok:
  assumes i: "table_inv t" and r: "apply_sym_op t x = (Inr n, t')"
  shows "table_inv t'"
    and "\<forall>y m. map_of (sym2num t) y = Some m \<longrightarrow> map_of (sym2num t') y = Some m"
    and "\<forall>a b. x = Alias a b \<longrightarrow> map_of (sym2num t') a = Some n \<and> map_of (sym2num t') b = Some n"
proof -
  have "table_inv t'
    \<and> (\<forall>y m. map_of (sym2num t) y = Some m \<longrightarrow> map_of (sym2num t') y = Some m)
    \<and> (\<forall>a b. x = Alias a b \<longrightarrow> map_of (sym2num t') a = Some n \<and> map_of (sym2num t') b = Some n)"
  proof (cases x)
    case (Define s)
    with r have ns: "new_symbol t s = (Inr n, t')" by simp
    then have "s \<notin> fst ` set (sym2num t)" by (auto simp: new_symbol_def split: if_splits)
    then have u: "map_of (sym2num t) s = None" by (simp add: map_of_eq_None_iff)
    from new_symbol_ok[OF i u] ns obtain
      "table_inv t'" "map_of (sym2num t') = (map_of (sym2num t))(s \<mapsto> next_sym_num t)"
      by auto
    then show ?thesis using Define u by auto
  next
    case (Alias a b)
    with r have al: "SymbolMapping_alias t a b = (Inr n, t')" by simp
    show ?thesis
      using alias_ok(1)[OF i al] alias_ok(2)[OF i al] alias_ok(3)[OF i al] alias_ok(4)[OF i al]
        Alias by blast
  qed
  then show "table_inv t'"
    and "\<forall>y m. map_of (sym2num t) y = Some m \<longrightarrow> map_of (sym2num t') y = Some m"
    and "\<forall>a b. x = Alias a b \<longrightarrow> map_of (sym2num t') a = Some n \<and> map_of (sym2num t') b = Some n"
    by blast+
qed

lemma run_ops_ok:
  "table_inv t \<Longrightarrow> run_ops t ops = Inr t' \<Longrightarrow>
     table_inv t'
     \<and> (\<forall>y m. map_of (sym2num t) y = Some m \<longrightarrow> map_of (sym2num t') y = Some m)
     \<and> (\<forall>(a, b) \<in> aliased_pairs ops.
           \<exists>n. map_of (sym2num t') a = Some n \<and> map_of (sym2num t') b = Some n)"
proof (induction ops arbitrary: t)
  case Nil
  then show ?case by (simp add: aliased_pairs_def)
next
  case (Cons x ops)
  from Cons.prems(2) obtain n t1 where
    st: "apply_sym_op t x = (Inr n, t1)" and rest: "run_ops t1 ops = Inr t'"
    by (auto split: prod.splits sum.splits)
  note s1 = apply_sym_op_ok[OF Cons.prems(1) st]
  from Cons.IH[OF s1(1) rest] have
    i': "table_inv t'"
    and p': "\<forall>y m. map_of (sym2num t1) y = Some m \<longrightarrow> map_of (sym2num t') y = Some m"
    and a': "\<forall>(a, b) \<in> aliased_pairs ops.
           \<exists>n. map_of (sym2num t') a = Some n \<and> map_of (sym2num t') b = Some n"
    by blast+
  have "\<exists>n. map_of (sym2num t') a = Some n \<and> map_of (sym2num t') b = Some n"
    if "(a, b) \<in> aliased_pairs (x # ops)" for a b
  proof -
    from that have "x = Alias a b \<or> (a, b) \<in> aliased_pairs ops"
      by (auto simp: aliased_pairs_def)
    then show ?thesis
    proof
      assume "x = Alias a b"
      with s1(3) have "map_of (sym2num t1) a = Some n \<and> map_of (sym2num t1) b = Some n" by blast
      with p' show ?thesis by blast
    next
      assume "(a, b) \<in> aliased_pairs ops"
      with a' show ?thesis by blast
    qed
  qed
  then show ?case using i' p' s1(2) by blast
qed

text \<open>
  C6: after a sequence of \<open>define\<close> and \<open>alias\<close> calls on the empty table none of which
  fails, two symbols connected by a chain of \<open>alias\<close> calls of the sequence (in either
  argument order) are both defined and have the same number.  In particular, on the empty
  table, \<open>alias(x, y)\<close> followed by \<open>alias(y, z)\<close> with \<open>z\<close> a new symbol returns 0, the number
  of \<open>x\<close>, and the symbols of that number are \<open>x\<close>, \<open>y\<close> and \<open>z\<close>.
\<close>

theorem alias_transitivity:
  "(run_ops init_SymbolMapping ops = Inr tab
      \<and> (a, b) \<in> (aliased_pairs ops \<union> (aliased_pairs ops)\<inverse>)\<^sup>+
     \<longrightarrow> (\<exists>n. to_number tab a = Inr n \<and> to_number tab b = Inr n))
   \<and> (z \<noteq> x \<and> z \<noteq> y \<longrightarrow>
        (case SymbolMapping_alias (snd (SymbolMapping_alias init_SymbolMapping x y)) y z of
           (r, t) \<Rightarrow> r = Inr 0 \<and> to_number t x = Inr 0
                    \<and> map_sum id set (to_symbols t 0) = Inr {x, y, z}))"
proof -
  have trans: "\<exists>n. to_number tab a = Inr n \<and> to_number tab b = Inr n"
    if run: "run_ops init_SymbolMapping ops = Inr tab"
      and conn: "(a, b) \<in> (aliased_pairs ops \<union> (aliased_pairs ops)\<inverse>)\<^sup>+"
  proof -
    let ?E = "\<lambda>a b. \<exists>n. map_of (sym2num tab) a = Some n \<and> map_of (sym2num tab) b = Some n"
    from run_ops_ok[OF init_inv run] have
      al: "\<forall>(a, b) \<in> aliased_pairs ops. ?E a b" by blast
    have base: "?E u v" if "(u, v) \<in> aliased_pairs ops \<union> (aliased_pairs ops)\<inverse>" for u v
      using that al by auto
    from conn have "?E a b"
    proof (induction rule: trancl.induct)
      case (r_into_trancl u v)
      then show ?case by (rule base)
    next
      case (trancl_into_trancl u v w)
      from base[OF trancl_into_trancl.hyps(2)] trancl_into_trancl.IH show ?case by auto
    qed
    then show ?thesis by (auto simp: to_number_def)
  qed
  have ex: "(case SymbolMapping_alias (snd (SymbolMapping_alias init_SymbolMapping x y)) y z of
           (r, t) \<Rightarrow> r = Inr 0 \<and> to_number t x = Inr 0
                    \<and> map_sum id set (to_symbols t 0) = Inr {x, y, z})"
    if "z \<noteq> x" "z \<noteq> y"
    using that
    by (cases "x = y")
      (auto simp: SymbolMapping_alias_def alias_ensure_def new_symbol_def init_SymbolMapping_def
        to_number_def to_symbols_def regenerate_sym2num_def py_set_update_def py_set_add_def
        Let_def)
  show ?thesis
  proof (intro conjI impI)
    assume "run_ops init_SymbolMapping ops = Inr tab
      \<and> (a, b) \<in> (aliased_pairs ops \<union> (aliased_pairs ops)\<inverse>)\<^sup>+"
    then show "\<exists>n. to_number tab a = Inr n \<and> to_number tab b = Inr n"
      using trans by blast
  next
    assume "z \<noteq> x \<and> z \<noteq> y"
    then have "z \<noteq> x" "z \<noteq> y" by simp_all
    then show "case SymbolMapping_alias (snd (SymbolMapping_alias init_SymbolMapping x y)) y z of
           (r, t) \<Rightarrow> r = Inr 0 \<and> to_number t x = Inr 0
                    \<and> map_sum id set (to_symbols t 0) = Inr {x, y, z}"
      by (rule ex)
  qed
qed

theorem alias_transitivity_witness:
  "run_ops init_SymbolMapping [Alias ''a'' ''b'', Alias ''b'' ''c'']
     = Inr \<lparr>sym2num = [(''a'', 0), (''b'', 0), (''c'', 0)],
            num2syms = [(0, [''a'', ''b'', ''c''])], next_sym_num = 3\<rparr>
   \<and> (''a'', ''c'') \<in> (aliased_pairs [Alias ''a'' ''b'', Alias ''b'' ''c'']
                        \<union> (aliased_pairs [Alias ''a'' ''b'', Alias ''b'' ''c''])\<inverse>)\<^sup>+
   \<and> (\<exists>n. to_number \<lparr>sym2num = [(''a'', 0), (''b'', 0), (''c'', 0)],
                       num2syms = [(0, [''a'', ''b'', ''c''])], next_sym_num = 3\<rparr> ''a'' = Inr n
          \<and> to_number \<lparr>sym2num = [(''a'', 0), (''b'', 0), (''c'', 0)],
                        num2syms = [(0, [''a'', ''b'', ''c''])], next_sym_num = 3\<rparr> ''c'' = Inr n)
   \<and> ''c'' \<noteq> ''a'' \<and> ''c'' \<noteq> ''b''
   \<and> map_sum id set
        (to_symbols
           (snd (SymbolMapping_alias (snd (SymbolMapping_alias init_SymbolMapping ''a'' ''b''))
                   ''b'' ''c'')) 0)
       = Inr {''a'', ''b'', ''c''}"
proof -
  let ?ops = "[Alias ''a'' ''b'', Alias ''b'' ''c'']"
  let ?T = "\<lparr>sym2num = [(''a'', 0), (''b'', 0), (''c'', 0)],
            num2syms = [(0, [''a'', ''b'', ''c''])], next_sym_num = 3\<rparr>"
  have run: "run_ops init_SymbolMapping ?ops = Inr ?T"
    by (simp add: SymbolMapping_alias_def alias_ensure_def new_symbol_def init_SymbolMapping_def
        regenerate_sym2num_def py_set_update_def py_set_add_def Let_def)
  have ab: "(''a'', ''b'') \<in> aliased_pairs ?ops \<union> (aliased_pairs ?ops)\<inverse>"
    by (simp add: aliased_pairs_def)
  have bc: "(''b'', ''c'') \<in> aliased_pairs ?ops \<union> (aliased_pairs ?ops)\<inverse>"
    by (simp add: aliased_pairs_def)
  have conn: "(''a'', ''c'') \<in> (aliased_pairs ?ops \<union> (aliased_pairs ?ops)\<inverse>)\<^sup>+"
    using ab bc by (rule trancl.intros(2)[OF trancl.intros(1)])
  have ne: "''c'' \<noteq> ''a''" "''c'' \<noteq> ''b''" by simp_all
  show ?thesis
    using run conn ne
      alias_transitivity[of ?ops ?T "''a''" "''c''" "''c''" "''a''" "''b''"]
    by (auto split: prod.splits)
qed

section \<open>The symbol table: renaming\<close>

lemma collect_fails:
  "\<exists>u \<in> set before. map_of s2n u = None \<Longrightarrow>
   \<exists>u \<in> set before. replace_all_collect s2n nums before = Inl (Abend (rename_message u))"
proof (induction before arbitrary: s2n nums)
  case Nil
  then show ?case by simp
next
  case (Cons s ss)
  show ?case
  proof (cases "map_of s2n s")
    case None
    then show ?thesis by (auto simp: rename_message_def)
  next
    case (Some n)
    with Cons.prems obtain u where u: "u \<in> set ss" "map_of s2n u = None" "u \<noteq> s"
      by (metis option.distinct(1) set_ConsD)
    then have "\<exists>u \<in> set ss. map_of (AList.delete s s2n) u = None"
      by (auto simp: delete_conv')
    from Cons.IH[OF this, of "nums @ [n]"] show ?thesis using Some by auto
  qed
qed

lemma fold_delete_lookup:
  "map_of (fold AList.delete ks al) x = (if x \<in> set ks then None else map_of al x)"
  by (induction ks arbitrary: al) (auto simp: delete_conv')

lemma fold_delete_distinct:
  "distinct (map fst al) \<Longrightarrow> distinct (map fst (fold AList.delete ks al))"
  by (induction ks arbitrary: al) (auto simp: distinct_delete)

lemma collect_succeeds:
  "distinct before \<Longrightarrow> \<forall>u \<in> set before. map_of s2n u \<noteq> None \<Longrightarrow>
   replace_all_collect s2n nums before
     = Inr (fold AList.delete before s2n, nums @ map (\<lambda>u. the (map_of s2n u)) before)"
proof (induction before arbitrary: s2n nums)
  case Nil
  then show ?case by simp
next
  case (Cons s ss)
  from Cons.prems obtain n where n: "map_of s2n s = Some n" by auto
  have d: "distinct ss" and ns: "s \<notin> set ss" using Cons.prems(1) by simp_all
  have same: "map_of (AList.delete s s2n) u = map_of s2n u" if "u \<in> set ss" for u
    using that ns by (auto simp: delete_conv')
  then have def: "\<forall>u \<in> set ss. map_of (AList.delete s s2n) u \<noteq> None"
    using Cons.prems(2) by simp
  have "map (\<lambda>u. the (map_of (AList.delete s s2n) u)) ss = map (\<lambda>u. the (map_of s2n u)) ss"
    using same by (intro map_cong) simp_all
  then show ?case using Cons.IH[OF d def, of "nums @ [n]"] n by simp
qed

lemma fold_update_lookup:
  "map_of (fold (\<lambda>(s, n) m. AList.update s n m) ps m0) x
     = (case map_of (rev ps) x of Some n \<Rightarrow> Some n | None \<Rightarrow> map_of m0 x)"
proof (induction ps arbitrary: m0)
  case Nil
  then show ?case by simp
next
  case (Cons p ps)
  obtain s n where p: "p = (s, n)" by (cases p)
  show ?case
    by (simp add: p Cons.IH update_conv' map_add_def split: option.splits)
qed

lemma fold_update_distinct:
  "distinct (map fst m0) \<Longrightarrow> distinct (map fst (fold (\<lambda>(s, n) m. AList.update s n m) ps m0))"
  by (induction ps arbitrary: m0) (auto simp: distinct_update)

lemma map_of_rev_distinct:
  "distinct (map fst ps) \<Longrightarrow> map_of (rev ps) = map_of ps"
proof -
  assume d: "distinct (map fst ps)"
  then have dr: "distinct (map fst (rev ps))" by (simp add: rev_map[symmetric])
  show ?thesis
  proof (rule ext, rule option_eq_by_Some)
    fix x n
    show "(map_of (rev ps) x = Some n) = (map_of ps x = Some n)"
      using d dr by (simp add: map_of_eq_Some_iff)
  qed
qed


lemma overwrite_fold:
  "distinct (map fst acc) \<Longrightarrow>
   distinct (map fst (fold (\<lambda>(s, n) acc.
                        case map_of acc n of
                          Some ss \<Rightarrow> AList.update n (py_set_add s ss) acc
                        | None \<Rightarrow> AList.update n [s] acc) ps acc))
   \<and> (\<forall>n. peers_of (fold (\<lambda>(s, n) acc.
                        case map_of acc n of
                          Some ss \<Rightarrow> AList.update n (py_set_add s ss) acc
                        | None \<Rightarrow> AList.update n [s] acc) ps acc) n
          = peers_of acc n \<union> {s. (s, n) \<in> set ps})"
proof (induction ps arbitrary: acc)
  case Nil
  then show ?case by simp
next
  case (Cons p ps)
  obtain s n where p: "p = (s, n)" by (cases p)
  let ?acc' = "case map_of acc n of
                 Some ss \<Rightarrow> AList.update n (py_set_add s ss) acc
               | None \<Rightarrow> AList.update n [s] acc"
  have d: "distinct (map fst ?acc')"
    using Cons.prems by (simp add: distinct_update split: option.splits)
  have pe: "peers_of ?acc' k = peers_of acc k \<union> (if k = n then {s} else {})" for k
    by (auto simp: peers_of_def update_conv' py_set_add_def split: option.splits)
  have "{x. (x, k) \<in> set (p # ps)} = (if k = n then {s} else {}) \<union> {x. (x, k) \<in> set ps}" for k
    by (auto simp: p)
  then show ?case using Cons.IH[OF d] by (simp add: p pe Un_assoc)
qed

lemma overwrite_with_inv:
  assumes d: "distinct (map fst s2n)"
  shows "table_inv (overwrite_with self s2n)" and "sym2num (overwrite_with self s2n) = s2n"
proof -
  let ?n2s = "fold (\<lambda>(s, n) acc.
                        case map_of acc n of
                          Some ss \<Rightarrow> AList.update n (py_set_add s ss) acc
                        | None \<Rightarrow> AList.update n [s] acc) s2n []"
  let ?t = "overwrite_with self s2n"
  have n2: "num2syms ?t = ?n2s" and s2: "sym2num ?t = s2n"
    and nx: "next_sym_num ?t = (case py_max (map fst ?n2s) of Inl e \<Rightarrow> 0 | Inr m \<Rightarrow> m + 1)"
    by (simp_all add: overwrite_with_def Let_def)
  from overwrite_fold[of "[]" s2n] have
    dk: "distinct (map fst ?n2s)" and pe: "\<And>n. peers_of ?n2s n = {s. (s, n) \<in> set s2n}"
    by (simp_all add: peers_of_def)
  have c: "map_of (sym2num ?t) s = Some n
             \<longleftrightarrow> (\<exists>ss. map_of (num2syms ?t) n = Some ss \<and> s \<in> set ss)" for s n
  proof -
    have "map_of s2n s = Some n \<longleftrightarrow> s \<in> peers_of ?n2s n"
      using d by (simp add: pe)
    also have "\<dots> \<longleftrightarrow> (\<exists>ss. map_of ?n2s n = Some ss \<and> s \<in> set ss)"
      by (auto simp: peers_of_def split: option.splits)
    finally show ?thesis by (simp only: n2 s2)
  qed
  have k: "n < next_sym_num ?t" if "n \<in> fst ` set (num2syms ?t)" for n
  proof -
    from that have m: "n \<in> set (map fst ?n2s)" by (simp only: n2 set_map)
    then obtain k ks where ks: "map fst ?n2s = k # ks" by (cases "map fst ?n2s") auto
    have "py_max (map fst ?n2s) = Inr (Max (set (k # ks)))"
      using Max.set_eq_fold[of k ks] by (simp add: ks)
    moreover have "n \<le> Max (set (k # ks))" using m by (simp only: ks) (rule Max_ge, simp_all)
    ultimately show ?thesis by (simp add: nx)
  qed
  show "table_inv ?t"
    unfolding table_inv_def using dk c k by (simp only: n2) blast
  show "sym2num ?t = s2n" by (rule s2)
qed

text \<open>
  C7 (as stated): the symbol at each position of \<open>oldSymbols\<close> is renamed to the symbol at
  the same position of \<open>newSymbols\<close> and keeps its index.  When \<open>newSymbols\<close> repeats a
  symbol, the later position overwrites the earlier one: in the table \<open>{a: 0, b: 1}\<close>,
  renaming \<open>[a, b]\<close> to \<open>[x, x]\<close> leaves \<open>{x: 1}\<close>, so the new symbol of position 0 does not
  have the index 0 of \<open>a\<close>, and index 0 is lost.
\<close>

theorem replace_all_repeated_new_symbol:
  "map_of (sym2num \<lparr>sym2num = [(''a'', 0), (''b'', 1)],
                     num2syms = [(0, [''a'']), (1, [''b''])], next_sym_num = 2\<rparr>) ''a'' = Some 0
   \<and> replace_all \<lparr>sym2num = [(''a'', 0), (''b'', 1)],
                   num2syms = [(0, [''a'']), (1, [''b''])], next_sym_num = 2\<rparr>
        [''a'', ''b''] [''x'', ''x'']
      = (Inr (), \<lparr>sym2num = [(''x'', 1)], num2syms = [(1, [''x''])], next_sym_num = 2\<rparr>)
   \<and> map_of (sym2num (snd (replace_all \<lparr>sym2num = [(''a'', 0), (''b'', 1)],
                   num2syms = [(0, [''a'']), (1, [''b''])], next_sym_num = 2\<rparr>
        [''a'', ''b''] [''x'', ''x'']))) ([''x'', ''x''] ! 0) \<noteq> Some 0"
  by (simp add: replace_all_def overwrite_with_def)

text \<open>
  C7 (amended): if some symbol of \<open>oldSymbols\<close> is not defined, \<open>replace_all\<close> ends in
  \<open>abend\<close> with the message that a nonexistent symbol cannot be renamed, and the table is
  unchanged.  If the old symbols are pairwise distinct and all defined, the two sequences
  have the same length and the new symbols are pairwise distinct, it succeeds, and afterwards
  the symbol at each position of \<open>newSymbols\<close> has the index that the symbol at the same
  position of \<open>oldSymbols\<close> had; a symbol that is not a new symbol is undefined if it was an
  old symbol and keeps its index otherwise; and the reverse map is rebuilt to agree with the
  forward map.
\<close>

theorem replace_all_spec:
  "((\<exists>u \<in> set before. map_of (sym2num self) u = None) \<longrightarrow>
      (\<exists>u \<in> set before.
         replace_all self before after
           = (Inl (Abend (''Failed to rename nonexistent symbol '' @ [CHR 0x22] @ u @ [CHR 0x22])),
              self)))
   \<and> (distinct (map fst (sym2num self)) \<and> distinct before
        \<and> (\<forall>u \<in> set before. map_of (sym2num self) u \<noteq> None)
        \<and> length after = length before \<and> distinct after \<longrightarrow>
      (\<exists>self'. replace_all self before after = (Inr (), self')
         \<and> (\<forall>i < length before.
               map_of (sym2num self') (after ! i) = map_of (sym2num self) (before ! i))
         \<and> (\<forall>s. s \<notin> set after \<longrightarrow>
               map_of (sym2num self') s
                 = (if s \<in> set before then None else map_of (sym2num self) s))
         \<and> table_inv self'))"
proof (intro conjI impI)
  assume "\<exists>u \<in> set before. map_of (sym2num self) u = None"
  from collect_fails[OF this, of "[]"] obtain u where
    u: "u \<in> set before"
      "replace_all_collect (sym2num self) [] before = Inl (Abend (rename_message u))"
    by blast
  then have "replace_all self before after = (Inl (Abend (rename_message u)), self)"
    by (simp add: replace_all_def)
  with u(1) show "\<exists>u \<in> set before.
         replace_all self before after
           = (Inl (Abend (''Failed to rename nonexistent symbol '' @ [CHR 0x22] @ u @ [CHR 0x22])),
              self)"
    unfolding rename_message_def by blast
next
  assume h: "distinct (map fst (sym2num self)) \<and> distinct before
        \<and> (\<forall>u \<in> set before. map_of (sym2num self) u \<noteq> None)
        \<and> length after = length before \<and> distinct after"
  let ?F = "map_of (sym2num self)"
  let ?nums = "map (\<lambda>u. the (?F u)) before"
  let ?s1 = "fold AList.delete before (sym2num self)"
  let ?fin = "fold (\<lambda>(s, n) m. AList.update s n m) (zip after ?nums) ?s1"
  let ?t = "overwrite_with self ?fin"
  have len: "length after = length ?nums" using h by simp
  have col: "replace_all_collect (sym2num self) [] before = Inr (?s1, ?nums)"
    using collect_succeeds[of before "sym2num self" "[]"] h by simp
  then have res: "replace_all self before after = (Inr (), ?t)"
    by (simp add: replace_all_def)
  have dfin: "distinct (map fst ?fin)"
    using h by (simp add: fold_update_distinct fold_delete_distinct)
  note ow = overwrite_with_inv[OF dfin, of self]
  have dz: "distinct (map fst (zip after ?nums))" using h len by (simp add: map_fst_zip)
  have look: "map_of ?fin x
     = (case map_of (zip after ?nums) x of Some n \<Rightarrow> Some n | None \<Rightarrow> map_of ?s1 x)" for x
    by (simp add: fold_update_lookup map_of_rev_distinct[OF dz])
  have pos: "map_of ?fin (after ! i) = ?F (before ! i)" if i: "i < length before" for i
  proof -
    have "map_of (zip after ?nums) (after ! i) = Some (?nums ! i)"
      using h i len by (intro map_of_zip_nth) simp_all
    moreover have "before ! i \<in> set before" using i by simp
    then have "?F (before ! i) \<noteq> None" using h by blast
    ultimately show ?thesis using i by (auto simp: look)
  qed
  have other: "map_of ?fin x = (if x \<in> set before then None else ?F x)" if "x \<notin> set after" for x
  proof -
    have "map_of (zip after ?nums) x = None" using that len by simp
    then show ?thesis by (simp add: look fold_delete_lookup)
  qed
  show "\<exists>self'. replace_all self before after = (Inr (), self')
         \<and> (\<forall>i < length before.
               map_of (sym2num self') (after ! i) = map_of (sym2num self) (before ! i))
         \<and> (\<forall>s. s \<notin> set after \<longrightarrow>
               map_of (sym2num self') s
                 = (if s \<in> set before then None else map_of (sym2num self) s))
         \<and> table_inv self'"
    using res pos other ow by (intro exI[of _ ?t]) (simp only: ow(2), blast)
qed

theorem replace_all_spec_witness:
  "distinct (map fst (sym2num \<lparr>sym2num = [(''a'', 0), (''b'', 1), (''c'', 1)],
                     num2syms = [(0, [''a'']), (1, [''b'', ''c''])], next_sym_num = 2\<rparr>))
   \<and> distinct [''a'', ''b''] \<and> distinct [''b'', ''x'']
   \<and> length [''b'', ''x''] = length [''a'', ''b'']
   \<and> replace_all \<lparr>sym2num = [(''a'', 0), (''b'', 1), (''c'', 1)],
                   num2syms = [(0, [''a'']), (1, [''b'', ''c''])], next_sym_num = 2\<rparr>
        [''a'', ''b''] [''b'', ''x'']
      = (Inr (), \<lparr>sym2num = [(''c'', 1), (''b'', 0), (''x'', 1)],
                  num2syms = [(1, [''c'', ''x'']), (0, [''b''])], next_sym_num = 2\<rparr>)
   \<and> replace_all \<lparr>sym2num = [(''a'', 0), (''b'', 1), (''c'', 1)],
                   num2syms = [(0, [''a'']), (1, [''b'', ''c''])], next_sym_num = 2\<rparr>
        [''a'', ''z''] [''b'', ''x'']
      = (Inl (Abend (''Failed to rename nonexistent symbol '' @ [CHR 0x22] @ ''z'' @ [CHR 0x22])),
         \<lparr>sym2num = [(''a'', 0), (''b'', 1), (''c'', 1)],
          num2syms = [(0, [''a'']), (1, [''b'', ''c''])], next_sym_num = 2\<rparr>)"
proof -
  let ?T = "\<lparr>sym2num = [(''a'', 0), (''b'', 1), (''c'', 1)],
                   num2syms = [(0, [''a'']), (1, [''b'', ''c''])], next_sym_num = 2\<rparr>"
  have ok: "replace_all ?T [''a'', ''b''] [''b'', ''x'']
      = (Inr (), \<lparr>sym2num = [(''c'', 1), (''b'', 0), (''x'', 1)],
                  num2syms = [(1, [''c'', ''x'']), (0, [''b''])], next_sym_num = 2\<rparr>)"
    by (simp add: replace_all_def overwrite_with_def py_set_add_def)
  have bad: "replace_all ?T [''a'', ''z''] [''b'', ''x'']
      = (Inl (Abend (''Failed to rename nonexistent symbol '' @ [CHR 0x22] @ ''z'' @ [CHR 0x22])),
         ?T)"
    by (simp add: replace_all_def)
  show ?thesis
    using ok bad replace_all_spec[of "[''a'', ''b'']" ?T "[''b'', ''x'']"] replace_all_spec[of "[''a'', ''z'']" ?T "[''b'', ''x'']"]
    by simp
qed

end
